theory Spec2Isabelle
  imports Complex_Main "HOL-Library.Char_ord" "HOL-Library.List_Lexorder"
begin

section \<open>Python values used by photobooth.py\<close>

text \<open>
  Exceptions are values. \<open>CameraException message recoverable\<close> is the classified
  camera error; \<open>KeyboardInterrupt\<close> and \<open>SystemExit code\<close> are the two classes the
  controller re-raises; \<open>PyException name\<close> stands for every other subclass of
  Python's \<open>Exception\<close> (\<open>OSError\<close>, \<open>ValueError\<close>, \<open>IndexError\<close>, ...).
\<close>

datatype exn =
    CameraException string bool
  | KeyboardInterrupt
  | SystemExit int
  | PyException string

subsection \<open>\<open>str\<close>, \<open>zfill\<close> and \<open>int\<close> on decimal strings\<close>

definition digit_char :: "nat \<Rightarrow> char" where
  "digit_char n = ''0123456789'' ! (n mod 10)"

function str_nat :: "nat \<Rightarrow> string" where
  "str_nat n = (if n < 10 then [digit_char n] else str_nat (n div 10) @ [digit_char (n mod 10)])"
  by pat_completeness auto
termination
  by (relation "measure (\<lambda>n. n)") auto

declare str_nat.simps [simp del]

text \<open>Python's \<open>str\<close> on an integer: decimal digits, a leading minus sign when negative.\<close>

definition str :: "int \<Rightarrow> string" where
  "str i = (if i < 0 then CHR ''-'' # str_nat (nat (- i)) else str_nat (nat i))"

text \<open>
  Python's \<open>s.zfill(width)\<close>: zeros are added on the left up to \<open>width\<close> characters,
  after a leading sign when there is one; a string that is long enough is unchanged.
\<close>

definition zfill :: "string \<Rightarrow> nat \<Rightarrow> string" where
  "zfill s width =
     (case s of
        [] \<Rightarrow> replicate width (CHR ''0'')
      | c # cs \<Rightarrow>
          if c = CHR ''+'' \<or> c = CHR ''-''
          then c # replicate (width - length s) (CHR ''0'') @ cs
          else replicate (width - length s) (CHR ''0'') @ s)"

definition is_digit :: "char \<Rightarrow> bool" where
  "is_digit c = (c \<in> set ''0123456789'')"

definition digit_val :: "char \<Rightarrow> nat" where
  "digit_val c = of_char c - 48"

fun decimal :: "string \<Rightarrow> nat" where
  "decimal [] = 0"
| "decimal (c # cs) = digit_val c * 10 ^ length cs + decimal cs"

text \<open>
  Python's \<open>int\<close> on a string, for the strings this program passes to it: a non-empty
  run of ASCII digits is its decimal value, anything else raises \<open>ValueError\<close>.
\<close>

definition py_int :: "string \<Rightarrow> exn + int" where
  "py_int s =
     (if s \<noteq> [] \<and> list_all is_digit s then Inr (int (decimal s))
      else Inl (PyException ''ValueError''))"

section \<open>PictureList\<close>

text \<open>
  The part of the file system \<open>PictureList.__init__\<close> touches: the paths that exist
  (files and directories), and whether \<open>os.makedirs\<close> succeeds on a directory name.
\<close>

record filesystem =
  paths :: "string list"
  creatable :: "string \<Rightarrow> bool"

definition path_exists :: "filesystem \<Rightarrow> string \<Rightarrow> bool" where
  "path_exists fs p = (p \<in> set (paths fs))"

definition makedirs :: "filesystem \<Rightarrow> string \<Rightarrow> exn + filesystem" where
  "makedirs fs d =
     (if creatable fs d then Inr (fs\<lparr>paths := paths fs @ [d]\<rparr>)
      else Inl (PyException ''OSError''))"

text \<open>
  \<open>os.path.dirname\<close> of posixpath: the part up to the last slash, its trailing
  slashes removed unless it consists of slashes only.
\<close>

definition rstrip_sep :: "string \<Rightarrow> string" where
  "rstrip_sep s = rev (dropWhile (\<lambda>c. c = CHR ''/'') (rev s))"

definition dirname :: "string \<Rightarrow> string" where
  "dirname p =
     (let head = rev (dropWhile (\<lambda>c. c \<noteq> CHR ''/'') (rev p))
      in if head \<noteq> [] \<and> \<not> list_all (\<lambda>c. c = CHR ''/'') head then rstrip_sep head else head)"

text \<open>
  Modelled from the spec: \<open>glob.glob\<close> belongs to Python's library, not to the source.
  Following the spec's contract of \<open>init\<close> ("filenames matching basename, N digits,
  suffix"), \<open>glob_count\<close> returns the existing paths that are the basename followed by
  \<open>count_width\<close> ASCII digits and the suffix. This is what the call
  \<open>glob(basename + "[0-9]" * count_width + suffix)\<close> yields for a basename without
  glob metacharacters, such as the configured date-stamped one.
\<close>

definition glob_match :: "string \<Rightarrow> nat \<Rightarrow> string \<Rightarrow> string \<Rightarrow> bool" where
  "glob_match base width suffix p =
     (length p = length base + width + length suffix
      \<and> take (length base) p = base
      \<and> list_all is_digit (take width (drop (length base) p))
      \<and> drop (length base + width) p = suffix)"

definition glob_count :: "filesystem \<Rightarrow> string \<Rightarrow> nat \<Rightarrow> string \<Rightarrow> string list" where
  "glob_count fs base width suffix = filter (glob_match base width suffix) (paths fs)"

record PictureList =
  basename :: string
  suffix :: string
  count_width :: nat
  counter :: int

text \<open>
  The slice \<open>s[-(count_width + len(suffix)) : -len(suffix)]\<close>, with Python's clamping
  of slice bounds.
\<close>

definition count_slice :: "string \<Rightarrow> nat \<Rightarrow> nat \<Rightarrow> string" where
  "count_slice s width slen = drop (length s - (width + slen)) (take (length s - slen) s)"

text \<open>
  \<open>PictureList.__init__\<close>. The result is the new object, the file system after the
  directory was created, and the two lines printed.
\<close>

definition PictureList_init ::
  "filesystem \<Rightarrow> string \<Rightarrow> exn + (PictureList \<times> filesystem \<times> string list)" where
  "PictureList_init fs base =
     (let sfx = ''.jpg'';
          width = 5;
          dir = dirname base
      in case (if \<not> path_exists fs dir then makedirs fs dir else Inr fs) of
           Inl e \<Rightarrow> Inl e
         | Inr fs' \<Rightarrow>
             (let pictures = glob_count fs' base width sfx
              in case (if length pictures = 0 then Inr 0
                       else (let pictures = sort pictures;
                                 last_picture = last pictures
                             in py_int (count_slice last_picture width (length sfx)))) of
                   Inl e \<Rightarrow> Inl e
                 | Inr c \<Rightarrow>
                     Inr (\<lparr>basename = base, suffix = sfx, count_width = width, counter = c\<rparr>,
                          fs',
                          [''Info: Number of last existing file: '' @ str c,
                           ''Info: Saving assembled pictures as: '' @ base @ ''XXXXX.jpg''])))"

definition get :: "PictureList \<Rightarrow> int \<Rightarrow> string" where
  "get pl count = basename pl @ zfill (str count) (count_width pl) @ suffix pl"

definition get_last :: "PictureList \<Rightarrow> string" where
  "get_last pl = get pl (counter pl)"

text \<open>\<open>get_next\<close> mutates the object: the result is the path and the updated object.\<close>

definition get_next :: "PictureList \<Rightarrow> string \<times> PictureList" where
  "get_next pl = (let pl' = pl\<lparr>counter := counter pl + 1\<rparr> in (get pl' (counter pl'), pl'))"

text \<open>
  The operations of a \<open>PictureList\<close> after its construction, and a run of a sequence
  of them on the object. Only \<open>get_next\<close> returns a changed object.
\<close>

datatype pl_op = Get int | GetLast | GetNext

fun pl_step :: "PictureList \<Rightarrow> pl_op \<Rightarrow> string \<times> PictureList" where
  "pl_step pl (Get count) = (get pl count, pl)"
| "pl_step pl GetLast = (get_last pl, pl)"
| "pl_step pl GetNext = get_next pl"

fun pl_run :: "PictureList \<Rightarrow> pl_op list \<Rightarrow> PictureList" where
  "pl_run pl [] = pl"
| "pl_run pl (op # ops) = pl_run (snd (pl_step pl op)) ops"

section \<open>The Photobooth controller and its environment\<close>

subsection \<open>Events, display actions, configuration\<close>

text \<open>
  An event of the display backend, by its \<open>type\<close> field: 0 is \<open>Quit\<close>, 1 a key press
  (value: the key), 2 a mouse button (value: button and position), 3 a GPIO event
  (value: the channel); \<open>OtherEvent t\<close> is an event of any other type \<open>t\<close>.
\<close>

datatype event =
    Quit
  | KeyPress int
  | MouseButton int "int \<times> int"
  | GpioEvent int
  | OtherEvent int

text \<open>
  What reaches the program from outside while it runs: an edge on a GPIO input channel,
  which calls back \<open>handle_gpio\<close>, or an event the windowing backend posts itself.
\<close>

datatype input = Edge int | Posted event

type_synonym size = "int \<times> int"
type_synonym color = "int \<times> int \<times> int"

text \<open>
  The assembled image: its size, its background, and the images pasted into it in order,
  each with its own size and the offset of its top-left corner.
\<close>

record canvas =
  canvas_size :: size
  background :: color
  pastes :: "(size \<times> (int \<times> int)) list"

text \<open>
  The effects of the program on its collaborators, in the order they happen: GPIO output,
  display calls, \<open>sleep\<close>, console output, the camera's idle call, the slideshow, the
  saved composite, and teardown.
\<close>

datatype action =
    SetOutput int int
  | DisplayClear "color option"
  | ShowMessage string
  | ShowPicture string "size option" "(int \<times> int) option" bool
  | Apply
  | Sleep real
  | Print string
  | SetIdle
  | SlideshowNext string
  | SaveImage string canvas
  | DisplayTeardown
  | GpioTeardown
  | RemoveFile string

text \<open>
  The attributes of the \<open>Photobooth\<close> object that never change after construction,
  with the module's globals the methods read.
\<close>

record photobooth =
  display_size :: size
  picture_basename :: string
  original_basename :: string
  pic_size :: size
  pose_time :: int
  display_time :: real
  trigger_channel :: int
  shutdown_channel :: int
  lamp_channel :: int
  idle_slideshow :: bool
  slideshow_display_time :: real
  tmp_dir :: string

text \<open>
  The world the controller runs in. What the environment decides is given as sequences
  the program consumes call by call: the values of \<open>time()\<close>, the \<open>%H%M%S\<close> stamps of
  \<open>datetime.now()\<close>, the outcome of each \<open>camera.take_picture\<close> (an exception or the
  filename) and of each \<open>camera.take_preview\<close>, the size of the image a file opens to
  (or the exception \<open>Image.open\<close> raises), and the inputs that arrive while the program
  waits. \<open>queue\<close> is the display's pending event queue and \<open>trace\<close> the effects so far.
  Durations and clock values are real numbers.
\<close>

record world =
  clock :: "nat \<Rightarrow> real"
  clock_ix :: nat
  stamps :: "nat \<Rightarrow> string"
  stamp_ix :: nat
  captures :: "nat \<Rightarrow> exn + string"
  capture_ix :: nat
  previews :: "nat \<Rightarrow> exn option"
  preview_ix :: nat
  has_preview :: bool
  images :: "string \<Rightarrow> exn + size"
  tempfiles :: "string list"
  arrivals :: "nat \<Rightarrow> input list"
  arrival_ix :: nat
  queue :: "event list"
  trace :: "action list"

text \<open>
  The outcome of a method: it returns a value, it raises, or the bound on the number of
  loop iterations was reached before it finished (\<open>Unfinished\<close>: the loops of the
  controller need not terminate). Exceptions enter through the camera, through
  \<open>Image.open\<close>, through indexing and through \<open>exit\<close>; the calls of the display, of the
  GPIO module and of \<open>sleep\<close> are taken to return normally.
\<close>

datatype 'a result = Return 'a world | Raise exn world | Unfinished world

subsection \<open>Collaborators\<close>

definition emit :: "action \<Rightarrow> world \<Rightarrow> world" where
  "emit a w = w\<lparr>trace := trace w @ [a]\<rparr>"

definition time :: "world \<Rightarrow> real \<times> world" where
  "time w = (clock w (clock_ix w), w\<lparr>clock_ix := clock_ix w + 1\<rparr>)"

definition strftime_hms :: "world \<Rightarrow> string \<times> world" where
  "strftime_hms w = (stamps w (stamp_ix w), w\<lparr>stamp_ix := stamp_ix w + 1\<rparr>)"

text \<open>
  Modelled from the spec: the display backend (module \<open>gui\<close>) is not part of the source.
  \<open>trigger_event\<close> injects an event from a non-UI source into the pending queue.
\<close>

definition trigger_event :: "int \<Rightarrow> world \<Rightarrow> world" where
  "trigger_event channel w = w\<lparr>queue := queue w @ [GpioEvent channel]\<rparr>"

definition handle_gpio :: "photobooth \<Rightarrow> int \<Rightarrow> world \<Rightarrow> world" where
  "handle_gpio pb channel w =
     (if channel \<in> set [trigger_channel pb, shutdown_channel pb] then trigger_event channel w
      else w)"

definition deliver :: "photobooth \<Rightarrow> world \<Rightarrow> input \<Rightarrow> world" where
  "deliver pb w i =
     (case i of Edge channel \<Rightarrow> handle_gpio pb channel w
              | Posted e \<Rightarrow> w\<lparr>queue := queue w @ [e]\<rparr>)"

text \<open>
  The inputs that arrive during one blocking call (a sleep, a camera call, a poll of the
  event queue) are delivered before the call returns.
\<close>

definition absorb :: "photobooth \<Rightarrow> world \<Rightarrow> world" where
  "absorb pb w =
     foldl (deliver pb) (w\<lparr>arrival_ix := arrival_ix w + 1\<rparr>) (arrivals w (arrival_ix w))"

definition sleep :: "photobooth \<Rightarrow> real \<Rightarrow> world \<Rightarrow> world" where
  "sleep pb d w = absorb pb (emit (Sleep d) w)"

definition set_output :: "int \<Rightarrow> int \<Rightarrow> world \<Rightarrow> world" where
  "set_output channel level w = emit (SetOutput channel level) w"

definition display_clear :: "color option \<Rightarrow> world \<Rightarrow> world" where
  "display_clear c w = emit (DisplayClear c) w"

definition show_message :: "string \<Rightarrow> world \<Rightarrow> world" where
  "show_message msg w = emit (ShowMessage msg) w"

definition show_picture ::
  "string \<Rightarrow> size option \<Rightarrow> (int \<times> int) option \<Rightarrow> bool \<Rightarrow> world \<Rightarrow> world" where
  "show_picture filename sz offset flip w = emit (ShowPicture filename sz offset flip) w"

definition display_apply :: "world \<Rightarrow> world" where
  "display_apply w = emit Apply w"

definition print :: "string \<Rightarrow> world \<Rightarrow> world" where
  "print s w = emit (Print s) w"

definition set_idle :: "world \<Rightarrow> world" where
  "set_idle w = emit SetIdle w"

text \<open>
  Modelled from the spec: the camera (module \<open>camera\<close>) is not part of the source. A
  capture or a preview either succeeds or raises; what it does is the environment's
  choice.
\<close>

definition camera_take_picture :: "photobooth \<Rightarrow> string \<Rightarrow> world \<Rightarrow> string result" where
  "camera_take_picture pb path w =
     (let w' = absorb pb (w\<lparr>capture_ix := capture_ix w + 1\<rparr>)
      in case captures w (capture_ix w) of Inl e \<Rightarrow> Raise e w' | Inr f \<Rightarrow> Return f w')"

definition camera_take_preview :: "photobooth \<Rightarrow> string \<Rightarrow> world \<Rightarrow> unit result" where
  "camera_take_preview pb path w =
     (let w' = absorb pb (w\<lparr>preview_ix := preview_ix w + 1\<rparr>)
      in case previews w (preview_ix w) of Some e \<Rightarrow> Raise e w' | None \<Rightarrow> Return () w')"

text \<open>
  Modelled from the spec: \<open>check_for_event\<close> polls the pending queue and returns whether
  there was an event, and the event; \<open>wait_for_event\<close> blocks until there is one.
\<close>

definition check_for_event :: "photobooth \<Rightarrow> world \<Rightarrow> event option \<times> world" where
  "check_for_event pb w =
     (let w' = absorb pb w
      in case queue w' of [] \<Rightarrow> (None, w') | e # es \<Rightarrow> (Some e, w'\<lparr>queue := es\<rparr>))"

fun wait_for_event :: "photobooth \<Rightarrow> nat \<Rightarrow> world \<Rightarrow> event result" where
  "wait_for_event pb 0 w = Unfinished w"
| "wait_for_event pb (Suc k) w =
     (case check_for_event pb w of
        (Some e, w') \<Rightarrow> Return e w'
      | (None, w') \<Rightarrow> wait_for_event pb k w')"

subsection \<open>Teardown and error display\<close>

definition remove_tempfiles :: "world \<Rightarrow> world" where
  "remove_tempfiles w = foldl (\<lambda>w filename. emit (RemoveFile filename) w) w (tempfiles w)"

text \<open>\<open>teardown\<close> ends with \<open>exit(0)\<close>, which raises \<open>SystemExit\<close>.\<close>

definition teardown :: "photobooth \<Rightarrow> world \<Rightarrow> 'a result" where
  "teardown pb w =
     (let w = display_clear None w;
          w = show_message ''Shutting down...'' w;
          w = display_apply w;
          w = set_output (lamp_channel pb) 0 w;
          w = sleep pb 0.5 w;
          w = emit DisplayTeardown w;
          w = emit GpioTeardown w;
          w = remove_tempfiles w
      in Raise (SystemExit 0) w)"

definition handle_exception :: "photobooth \<Rightarrow> string \<Rightarrow> world \<Rightarrow> world" where
  "handle_exception pb msg w =
     (let w = display_clear None w;
          w = print (''Error: '' @ msg) w;
          w = show_message (''ERROR:\<newline>\<newline>'' @ msg) w;
          w = display_apply w
      in sleep pb 3 w)"

subsection \<open>Assembling the composite\<close>

text \<open>
  Modelled from the spec: \<open>Image.thumbnail\<close> belongs to the imaging library (PIL), not
  to the source. The spec asks for a proportional scaling that fits the box, preserves
  the aspect ratio and never scales up. This is the library's own computation on pixel
  sizes: the width is cut to the box first, then the height, each time scaling the other
  side in proportion, rounded down and at least one pixel. It is meant for the positive
  sizes of an image and of a box.
\<close>

definition thumbnail :: "size \<Rightarrow> size \<Rightarrow> size" where
  "thumbnail box sz =
     (let (x, y) = sz;
          (x, y) = (if x > fst box then (fst box, max (y * fst box div x) 1) else (x, y));
          (x, y) = (if y > snd box then (max (x * snd box div y) 1, snd box) else (x, y))
      in (x, y))"

text \<open>
  An entry of the list \<open>filenames\<close> of \<open>take_picture\<close>: the integer it is initialised
  with, or the filename a capture stored.
\<close>

datatype slot = Unset int | File string

definition index :: "'a list \<Rightarrow> nat \<Rightarrow> exn + 'a" where
  "index xs k = (if k < length xs then Inr (xs ! k) else Inl (PyException ''IndexError''))"

text \<open>
  \<open>img = Image.open(input_filenames[k])\<close> followed by \<open>img.thumbnail(thumb_size)\<close>: the
  result is \<open>img.size\<close> afterwards.
\<close>

definition open_thumbnail :: "slot list \<Rightarrow> nat \<Rightarrow> size \<Rightarrow> world \<Rightarrow> exn + size" where
  "open_thumbnail input_filenames k thumb_size w =
     (case index input_filenames k of
        Inl e \<Rightarrow> Inl e
      | Inr (Unset i) \<Rightarrow> Inl (PyException ''AttributeError'')
      | Inr (File filename) \<Rightarrow>
          (case images w filename of
             Inl e \<Rightarrow> Inl e
           | Inr sz \<Rightarrow> Inr (thumbnail thumb_size sz)))"

definition paste :: "canvas \<Rightarrow> size \<Rightarrow> int \<times> int \<Rightarrow> canvas" where
  "paste output_image img offset = output_image\<lparr>pastes := pastes output_image @ [(img, offset)]\<rparr>"

text \<open>
  \<open>int(a / 2)\<close> on a non-negative integer: Python 2 divides with floor, Python 3 divides
  exactly and truncates; both give \<open>a div 2\<close>.
\<close>

definition half :: "int \<Rightarrow> int" where
  "half a = a div 2"

definition assemble_pictures :: "photobooth \<Rightarrow> slot list \<Rightarrow> world \<Rightarrow> string result" where
  "assemble_pictures pb input_filenames w =
     (let outer_border = 50;
          inner_border = 20;
          thumb_box = (half (fst (pic_size pb)), half (snd (pic_size pb)));
          thumb_size = (fst thumb_box - outer_border - inner_border,
                        snd thumb_box - outer_border - inner_border);
          output_image = \<lparr>canvas_size = pic_size pb, background = (255, 255, 255), pastes = []\<rparr>
      in case open_thumbnail input_filenames 0 thumb_size w of
           Inl e \<Rightarrow> Raise e w
         | Inr img0 \<Rightarrow>
      (let offset = (fst thumb_box - inner_border - fst img0,
                     snd thumb_box - inner_border - snd img0);
           output_image = paste output_image img0 offset
       in case open_thumbnail input_filenames 1 thumb_size w of
            Inl e \<Rightarrow> Raise e w
          | Inr img1 \<Rightarrow>
      (let offset = (fst thumb_box + inner_border,
                     snd thumb_box - inner_border - snd img1);
           output_image = paste output_image img1 offset
       in case open_thumbnail input_filenames 2 thumb_size w of
            Inl e \<Rightarrow> Raise e w
          | Inr img2 \<Rightarrow>
      (let offset = (fst thumb_box - inner_border - fst img2,
                     snd thumb_box + inner_border);
           output_image = paste output_image img2 offset
       in case open_thumbnail input_filenames 3 thumb_size w of
            Inl e \<Rightarrow> Raise e w
          | Inr img3 \<Rightarrow>
      (let offset = (fst thumb_box + inner_border,
                     snd thumb_box + inner_border);
           output_image = paste output_image img3 offset;
           (stamp, w) = strftime_hms w;
           output_filename = picture_basename pb @ stamp @ ''.jpg''
       in Return output_filename (emit (SaveImage output_filename output_image) w))))))"

subsection \<open>The countdown\<close>

text \<open>\<open>int(toc)\<close> on a float truncates towards zero.\<close>

definition py_trunc :: "real \<Rightarrow> int" where
  "py_trunc r = (if 0 \<le> r then \<lfloor>r\<rfloor> else \<lceil>r\<rceil>)"

definition preview_file :: "photobooth \<Rightarrow> string" where
  "preview_file pb = tmp_dir pb @ ''photobooth_preview.jpg''"

text \<open>
  One iteration of the preview loop of \<open>show_counter\<close>, from the loop variable \<open>toc\<close> to
  its next value.
\<close>

definition preview_step :: "photobooth \<Rightarrow> int \<Rightarrow> real \<Rightarrow> real \<Rightarrow> world \<Rightarrow> real result" where
  "preview_step pb seconds tic toc w =
     (let w = display_clear None w
      in case camera_take_preview pb (preview_file pb) w of
           Raise e w \<Rightarrow> Raise e w
         | Unfinished w \<Rightarrow> Unfinished w
         | Return u w \<Rightarrow>
             (let w = show_picture (preview_file pb) None None True w;
                  w = show_message (str (seconds - py_trunc toc)) w;
                  w = display_apply w;
                  (now, w) = time w
              in Return (min (toc + 1) (now - tic)) w))"

text \<open>
  The loop \<open>while toc < seconds\<close>; the first argument bounds the number of times its
  condition is evaluated. It returns the value of \<open>toc\<close> at the exit.
\<close>

fun preview_loop :: "nat \<Rightarrow> photobooth \<Rightarrow> int \<Rightarrow> real \<Rightarrow> real \<Rightarrow> world \<Rightarrow> real result" where
  "preview_loop 0 pb seconds tic toc w = Unfinished w"
| "preview_loop (Suc k) pb seconds tic toc w =
     (if toc < real_of_int seconds then
        (case preview_step pb seconds tic toc w of
           Return toc' w' \<Rightarrow> preview_loop k pb seconds tic toc' w'
         | Raise e w' \<Rightarrow> Raise e w'
         | Unfinished w' \<Rightarrow> Unfinished w')
      else Return toc w)"

definition countdown_tick :: "photobooth \<Rightarrow> int \<Rightarrow> world \<Rightarrow> int \<Rightarrow> world" where
  "countdown_tick pb seconds w i =
     (let w = display_clear None w;
          w = show_message (str (seconds - i)) w;
          w = display_apply w
      in sleep pb 1 w)"

definition show_counter :: "photobooth \<Rightarrow> nat \<Rightarrow> int \<Rightarrow> world \<Rightarrow> unit result" where
  "show_counter pb n seconds w =
     (if has_preview w then
        (let w = display_clear None w
         in case camera_take_preview pb (preview_file pb) w of
              Raise e w \<Rightarrow> Raise e w
            | Unfinished w \<Rightarrow> Unfinished w
            | Return u w \<Rightarrow>
                (let w = show_picture (preview_file pb) None None True w;
                     w = display_apply w;
                     (tic, w) = time w;
                     (now, w) = time w;
                     toc = now - tic
                 in case preview_loop n pb seconds tic toc w of
                      Return toc' w \<Rightarrow> Return () w
                    | Raise e w \<Rightarrow> Raise e w
                    | Unfinished w \<Rightarrow> Unfinished w))
      else Return () (foldl (countdown_tick pb seconds) w [0..seconds - 1]))"

subsection \<open>The capture session\<close>

text \<open>Lines 426 to 429: measure the time used and sleep up to a second.\<close>

definition pad_sleep :: "photobooth \<Rightarrow> real \<Rightarrow> world \<Rightarrow> world" where
  "pad_sleep pb tic w =
     (let (now, w) = time w;
          toc = now - tic
      in if toc < 1.0 then sleep pb (1.0 - toc) w else w)"

text \<open>
  The assignment \<open>xs[i] = v\<close> on a list: a negative index counts from the end, an index
  out of range raises \<open>IndexError\<close>.
\<close>

definition store :: "'a list \<Rightarrow> int \<Rightarrow> 'a \<Rightarrow> exn + 'a list" where
  "store xs i v =
     (if 0 \<le> i \<and> i < int (length xs) then Inr (xs[nat i := v])
      else if i < 0 \<and> - int (length xs) \<le> i then Inr (xs[nat (int (length xs) + i) := v])
      else Inl (PyException ''IndexError''))"

text \<open>
  One iteration of the loop \<open>while remaining_attempts > 0\<close>, for picture \<open>x\<close>. It returns
  the new values of \<open>remaining_attempts\<close> and \<open>filenames\<close>.
\<close>

definition capture_attempt ::
  "photobooth \<Rightarrow> int \<Rightarrow> int \<Rightarrow> slot list \<Rightarrow> world \<Rightarrow> (int \<times> slot list) result" where
  "capture_attempt pb x remaining_attempts filenames w =
     (let remaining_attempts = remaining_attempts - 1;
          w = display_clear (Some (255, 230, 200)) w;
          w = show_message (''SMILE!\<newline>Photo '' @ str (x + 1) @ '' of 4'') w;
          w = display_apply w;
          (tic, w) = time w;
          (stamp, w) = strftime_hms w
      in case camera_take_picture pb (original_basename pb @ stamp @ ''.jpg'') w of
           Return filename w \<Rightarrow>
             (case store filenames x (File filename) of
                Inl e \<Rightarrow> Raise e w
              | Inr filenames \<Rightarrow> Return (0, filenames) (pad_sleep pb tic w))
         | Raise (CameraException message recoverable) w \<Rightarrow>
             (if recoverable then
                (if remaining_attempts > 0 then
                   (let w = display_clear None w;
                        w = show_message message w;
                        w = display_apply w;
                        w = sleep pb 5 w
                    in Return (remaining_attempts, filenames) (pad_sleep pb tic w))
                 else Raise (CameraException ''Giving up! Please start over!'' False) w)
              else Raise (CameraException message recoverable) w)
         | Raise e w \<Rightarrow> Raise e w
         | Unfinished w \<Rightarrow> Unfinished w)"

function capture_loop ::
  "photobooth \<Rightarrow> int \<Rightarrow> int \<Rightarrow> slot list \<Rightarrow> world \<Rightarrow> (slot list) result" where
  "capture_loop pb x remaining_attempts filenames w =
     (if remaining_attempts > 0 then
        (case capture_attempt pb x remaining_attempts filenames w of
           Return (remaining_attempts', filenames') w' \<Rightarrow>
             capture_loop pb x remaining_attempts' filenames' w'
         | Raise e w' \<Rightarrow> Raise e w'
         | Unfinished w' \<Rightarrow> Unfinished w')
      else Return filenames w)"
  by pat_completeness auto
termination
proof (relation "measure (\<lambda>(pb, x, remaining_attempts, filenames, w). nat remaining_attempts)")
  show "wf (measure (\<lambda>(pb, x, remaining_attempts, filenames, w). nat remaining_attempts))"
    by simp
next
  fix pb x remaining_attempts filenames w v w' r f
  assume pos: "0 < remaining_attempts"
    and att: "capture_attempt pb x remaining_attempts filenames w = Return v w'"
    and v: "(r, f) = v"
  from att v have "r = 0 \<or> r = remaining_attempts - 1"
    unfolding capture_attempt_def Let_def
    by (auto split: prod.splits result.splits exn.splits sum.splits if_splits)
  with pos show "((pb, x, r, f, w'), (pb, x, remaining_attempts, filenames, w))
        \<in> measure (\<lambda>(pb, x, remaining_attempts, filenames, w). nat remaining_attempts)"
    by auto
qed

declare capture_loop.simps [simp del]

text \<open>The loop \<open>for x in range(4)\<close> of \<open>take_picture\<close>, over the pictures still to take.\<close>

fun take_shots :: "photobooth \<Rightarrow> nat \<Rightarrow> int list \<Rightarrow> slot list \<Rightarrow> world \<Rightarrow> (slot list) result" where
  "take_shots pb n [] filenames w = Return filenames w"
| "take_shots pb n (x # xs) filenames w =
     (case show_counter pb n (pose_time pb) w of
        Raise e w \<Rightarrow> Raise e w
      | Unfinished w \<Rightarrow> Unfinished w
      | Return u w \<Rightarrow>
          (case capture_loop pb x 3 filenames w of
             Raise e w \<Rightarrow> Raise e w
           | Unfinished w \<Rightarrow> Unfinished w
           | Return filenames w \<Rightarrow> take_shots pb n xs filenames w))"

text \<open>
  \<open>clear_event_queue\<close>: poll until the queue reports no event. The bound is on the number
  of polls.
\<close>

fun clear_event_queue :: "photobooth \<Rightarrow> nat \<Rightarrow> world \<Rightarrow> unit result" where
  "clear_event_queue pb 0 w = Unfinished w"
| "clear_event_queue pb (Suc k) w =
     (case check_for_event pb w of
        (None, w') \<Rightarrow> Return () w'
      | (Some e, w') \<Rightarrow> clear_event_queue pb k w')"

text \<open>
  \<open>take_picture\<close>. The size \<open>display.get_size()\<close> returns is the one the display was
  opened with; the bound \<open>n\<close> is handed to the loops of the countdown and of the drain.
\<close>

definition take_picture :: "photobooth \<Rightarrow> nat \<Rightarrow> world \<Rightarrow> unit result" where
  "take_picture pb n w =
     (let w = set_output (lamp_channel pb) 0 w;
          w = display_clear None w;
          w = show_message ''POSE!\<newline>\<newline>Four pictures...'' w;
          w = display_apply w;
          w = sleep pb 2 w;
          sz = display_size pb;
          outsize = (half (fst sz), half (snd sz));
          filenames = map Unset [0..3]
      in case take_shots pb n [0..3] filenames w of
           Raise e w \<Rightarrow> Raise e w
         | Unfinished w \<Rightarrow> Unfinished w
         | Return filenames w \<Rightarrow>
             (let w = display_clear None w;
                  w = show_message ''Please wait!'' w;
                  w = display_apply w
              in case assemble_pictures pb filenames w of
                   Raise e w \<Rightarrow> Raise e w
                 | Unfinished w \<Rightarrow> Unfinished w
                 | Return outfile w \<Rightarrow>
                     (let w = display_clear None w;
                          w = show_picture outfile (Some sz) (Some (0, 0)) False w;
                          w = display_apply w;
                          w = sleep pb (display_time pb) w;
                          w = set_output (lamp_channel pb) 1 w
                      in clear_event_queue pb n w)))"

subsection \<open>Event dispatch and the main loop\<close>

definition handle_keypress :: "photobooth \<Rightarrow> nat \<Rightarrow> int \<Rightarrow> world \<Rightarrow> unit result" where
  "handle_keypress pb n key w =
     (if key = of_char (CHR ''q'') then teardown pb w
      else if key = of_char (CHR ''c'') then take_picture pb n w
      else Return () w)"

definition handle_mousebutton :: "int \<Rightarrow> int \<times> int \<Rightarrow> world \<Rightarrow> world" where
  "handle_mousebutton key pos w = (if key = 1 then print ''Mouse click disabled'' w else w)"

definition handle_gpio_event :: "photobooth \<Rightarrow> nat \<Rightarrow> int \<Rightarrow> world \<Rightarrow> unit result" where
  "handle_gpio_event pb n channel w =
     (if channel = trigger_channel pb then take_picture pb n w
      else if channel = shutdown_channel pb then teardown pb w
      else Return () w)"

definition handle_event :: "photobooth \<Rightarrow> nat \<Rightarrow> event \<Rightarrow> world \<Rightarrow> unit result" where
  "handle_event pb n event w =
     (case event of
        Quit \<Rightarrow> teardown pb w
      | KeyPress key \<Rightarrow> handle_keypress pb n key w
      | MouseButton key pos \<Rightarrow> Return () (handle_mousebutton key pos w)
      | GpioEvent channel \<Rightarrow> handle_gpio_event pb n channel w
      | OtherEvent t \<Rightarrow> Return () w)"

text \<open>
  In the loops below the first bound \<open>n\<close> is handed down to the loops inside a capture
  session, the second one bounds the iterations of the loop itself.
\<close>

fun check_and_handle_events :: "photobooth \<Rightarrow> nat \<Rightarrow> nat \<Rightarrow> world \<Rightarrow> unit result" where
  "check_and_handle_events pb n 0 w = Unfinished w"
| "check_and_handle_events pb n (Suc k) w =
     (case check_for_event pb w of
        (None, w') \<Rightarrow> Return () w'
      | (Some e, w') \<Rightarrow>
          (case handle_event pb n e w' of
             Raise e w' \<Rightarrow> Raise e w'
           | Unfinished w' \<Rightarrow> Unfinished w'
           | Return u w' \<Rightarrow> check_and_handle_events pb n k w'))"

fun run_plain :: "photobooth \<Rightarrow> nat \<Rightarrow> nat \<Rightarrow> world \<Rightarrow> unit result" where
  "run_plain pb n 0 w = Unfinished w"
| "run_plain pb n (Suc k) w =
     (let w = set_idle w;
          w = display_clear None w;
          w = show_message ''Press the button!'' w;
          w = display_apply w
      in case wait_for_event pb n w of
           Raise e w \<Rightarrow> Raise e w
         | Unfinished w \<Rightarrow> Unfinished w
         | Return event w \<Rightarrow>
             (case handle_event pb n event w of
                Raise e w \<Rightarrow> Raise e w
              | Unfinished w \<Rightarrow> Unfinished w
              | Return u w \<Rightarrow> run_plain pb n k w))"

text \<open>The inner loop of \<open>_run_slideshow\<close>: \<open>while time() - tic < slideshow_display_time\<close>.\<close>

fun slideshow_wait :: "photobooth \<Rightarrow> nat \<Rightarrow> real \<Rightarrow> nat \<Rightarrow> world \<Rightarrow> unit result" where
  "slideshow_wait pb n tic 0 w = Unfinished w"
| "slideshow_wait pb n tic (Suc k) w =
     (let (now, w) = time w
      in if now - tic < slideshow_display_time pb then
           (case check_and_handle_events pb n n w of
              Raise e w \<Rightarrow> Raise e w
            | Unfinished w \<Rightarrow> Unfinished w
            | Return u w \<Rightarrow> slideshow_wait pb n tic k w)
         else Return () w)"

fun run_slideshow :: "photobooth \<Rightarrow> nat \<Rightarrow> nat \<Rightarrow> world \<Rightarrow> unit result" where
  "run_slideshow pb n 0 w = Unfinished w"
| "run_slideshow pb n (Suc k) w =
     (let w = set_idle w;
          w = emit (SlideshowNext ''Press the button!'') w;
          (tic, w) = time w
      in case slideshow_wait pb n tic n w of
           Raise e w \<Rightarrow> Raise e w
         | Unfinished w \<Rightarrow> Unfinished w
         | Return u w \<Rightarrow> run_slideshow pb n k w)"

text \<open>
  The body of the \<open>try\<close> in \<open>run\<close>: the lamp is enabled and the idle screen runs.
\<close>

definition run_idle :: "photobooth \<Rightarrow> nat \<Rightarrow> world \<Rightarrow> unit result" where
  "run_idle pb n w =
     (let w = set_output (lamp_channel pb) 1 w
      in if idle_slideshow pb then run_slideshow pb n n w else run_plain pb n n w)"

text \<open>
  \<open>run\<close>: \<open>while True\<close> around the \<open>try\<close> with its three handlers, in the order of the
  source. For an exception that is neither a \<open>CameraException\<close> nor one of the two
  re-raised classes, the string it carries is its \<open>repr\<close>.
\<close>

fun run :: "photobooth \<Rightarrow> nat \<Rightarrow> nat \<Rightarrow> world \<Rightarrow> unit result" where
  "run pb n 0 w = Unfinished w"
| "run pb n (Suc k) w =
     (case run_idle pb n w of
        Return u w \<Rightarrow> run pb n k w
      | Unfinished w \<Rightarrow> Unfinished w
      | Raise (CameraException message recoverable) w \<Rightarrow>
          run pb n k (handle_exception pb message w)
      | Raise KeyboardInterrupt w \<Rightarrow> Raise KeyboardInterrupt w
      | Raise (SystemExit code) w \<Rightarrow> Raise (SystemExit code) w
      | Raise (PyException r) w \<Rightarrow>
          run pb n k (handle_exception pb ''SERIOUS ERROR!'' (print (''SERIOUS ERROR: '' @ r) w)))"

section \<open>Notions used to state the properties\<close>

subsection \<open>Numbered pictures on disk\<close>

text \<open>
  The numbers of the existing pictures of a basename: \<open>N\<close> is the decimal value of five
  digits \<open>ds\<close> such that the path basename, \<open>ds\<close>, \<open>.jpg\<close> exists.
\<close>

definition picture_numbers :: "filesystem \<Rightarrow> string \<Rightarrow> int set" where
  "picture_numbers fs base =
     {int (decimal ds) | ds. length ds = 5 \<and> list_all is_digit ds \<and> base @ ds @ ''.jpg'' \<in> set (paths fs)}"

text \<open>Two concrete directories: one holding pictures up to number 7, one not yet created.\<close>

definition fs_seven :: filesystem where
  "fs_seven = \<lparr>paths = [''2016-01-01'', ''2016-01-01/processed00007.jpg'',
                          ''2016-01-01/processed00003.jpg'', ''2016-01-01/original00009.jpg''],
               creatable = (\<lambda>d. False)\<rparr>"

definition fs_fresh :: filesystem where
  "fs_fresh = \<lparr>paths = [], creatable = (\<lambda>d. d = ''2016-01-01'')\<rparr>"

subsection \<open>Geometry of the composite\<close>

text \<open>
  A placement is a pasted thumbnail: its size and the offset of its top-left corner. Its
  pixels are the canvas positions it covers.
\<close>

type_synonym placement = "size \<times> (int \<times> int)"

definition pixels :: "placement \<Rightarrow> (int \<times> int) set" where
  "pixels p = {(i, j). fst (snd p) \<le> i \<and> i < fst (snd p) + fst (fst p)
                      \<and> snd (snd p) \<le> j \<and> j < snd (snd p) + snd (fst p)}"

text \<open>
  Quadrant \<open>k\<close> of the canvas (0 top-left, 1 top-right, 2 bottom-left, 3 bottom-right)
  shrunk by the borders: 50 pixels from the canvas edge, 20 pixels from the centre cross.
\<close>

definition quadrant_inner :: "size \<Rightarrow> nat \<Rightarrow> (int \<times> int) set" where
  "quadrant_inner canvas k =
     {(i, j). (if k mod 2 = 0 then 50 \<le> i \<and> i < fst canvas div 2 - 20
               else fst canvas div 2 + 20 \<le> i \<and> i < fst canvas - 50)
            \<and> (if k div 2 = 0 then 50 \<le> j \<and> j < snd canvas div 2 - 20
               else snd canvas div 2 + 20 \<le> j \<and> j < snd canvas - 50)}"

text \<open>The placements of the composite a call of \<open>assemble_pictures\<close> has saved.\<close>

definition placements :: "string result \<Rightarrow> placement list" where
  "placements r =
     (case r of
        Return f w \<Rightarrow>
          (if trace w = [] then []
           else (case last (trace w) of SaveImage name c \<Rightarrow> pastes c | _ \<Rightarrow> []))
      | _ \<Rightarrow> [])"


subsection \<open>A concrete booth and world\<close>

text \<open>
  The configuration of the module, and a world given by the outcomes of the captures and
  the readings of the clock: every image file opens to the camera's 4752 x 3168 pixels
  but one small one, and a button edge, a stray edge and a key press arrive during the
  third blocking call.
\<close>

definition demo_booth :: photobooth where
  "demo_booth = \<lparr>display_size = (848, 480), picture_basename = ''2016-01-01/processed'',
     original_basename = ''2016-01-01/original'', pic_size = (2352, 1568), pose_time = 3,
     display_time = 10, trigger_channel = 18, shutdown_channel = 24, lamp_channel = 23,
     idle_slideshow = False, slideshow_display_time = 5, tmp_dir = ''/tmp/''\<rparr>"

definition demo_world :: "(exn + string) list \<Rightarrow> real list \<Rightarrow> world" where
  "demo_world outcomes readings =
     \<lparr>clock = (\<lambda>k. if k < length readings then readings ! k else 0),
      clock_ix = 0,
      stamps = (\<lambda>k. ''120000''),
      stamp_ix = 0,
      captures = (\<lambda>k. if k < length outcomes then outcomes ! k else Inr ''shot.jpg''),
      capture_ix = 0,
      previews = (\<lambda>k. None),
      preview_ix = 0,
      has_preview = False,
      images = (\<lambda>f. if f = ''small.jpg'' then Inr (640, 480) else Inr (4752, 3168)),
      tempfiles = [],
      arrivals = (\<lambda>k. if k = 2 then [Edge 18, Edge 7, Posted (KeyPress 99)] else []),
      arrival_ix = 0,
      queue = [],
      trace = []\<rparr>"

definition demo_files :: "slot list" where
  "demo_files = [File ''a.jpg'', File ''b.jpg'', File ''small.jpg'', File ''d.jpg'']"

subsection \<open>Outcomes and traces\<close>

text \<open>The parts of an outcome: the world it ends in, the value returned, the exception raised.\<close>

definition the_world :: "'a result \<Rightarrow> world" where
  "the_world r = (case r of Return v w \<Rightarrow> w | Raise e w \<Rightarrow> w | Unfinished w \<Rightarrow> w)"

definition returned :: "'a result \<Rightarrow> 'a option" where
  "returned r = (case r of Return v w \<Rightarrow> Some v | Raise e w \<Rightarrow> None | Unfinished w \<Rightarrow> None)"

definition raised :: "'a result \<Rightarrow> exn option" where
  "raised r = (case r of Return v w \<Rightarrow> None | Raise e w \<Rightarrow> Some e | Unfinished w \<Rightarrow> None)"

text \<open>The events a batch of inputs leaves in the queue.\<close>

definition posted :: "photobooth \<Rightarrow> input list \<Rightarrow> event list" where
  "posted pb inputs =
     concat (map (\<lambda>i. case i of
                        Edge channel \<Rightarrow>
                          if channel = trigger_channel pb \<or> channel = shutdown_channel pb
                          then [GpioEvent channel] else []
                      | Posted e \<Rightarrow> [e]) inputs)"

text \<open>
  The display actions of one capture attempt for picture \<open>x\<close>, of the error display before
  a retry, and of the pad after a measured time \<open>toc\<close>; and the time slept in a list of
  actions.
\<close>

definition smile_actions :: "int \<Rightarrow> action list" where
  "smile_actions x =
     [DisplayClear (Some (255, 230, 200)),
      ShowMessage (''SMILE!\<newline>Photo '' @ str (x + 1) @ '' of 4''),
      Apply]"

definition retry_actions :: "string \<Rightarrow> action list" where
  "retry_actions message = [DisplayClear None, ShowMessage message, Apply, Sleep 5]"

definition pad_actions :: "real \<Rightarrow> action list" where
  "pad_actions toc = (if toc < 1 then [Sleep (1 - toc)] else [])"

definition slept :: "action list \<Rightarrow> real" where
  "slept as = sum_list (map (\<lambda>a. case a of Sleep d \<Rightarrow> d | _ \<Rightarrow> 0) as)"

text \<open>The concrete world with a camera that has a preview.\<close>

definition preview_world :: "real list \<Rightarrow> world" where
  "preview_world readings = (demo_world [] readings)\<lparr>has_preview := True\<rparr>"

text \<open>
  A list of actions that does not switch a GPIO output; and a world that continues
  another one quietly: its trace extends the other's by such actions only.
\<close>

definition no_output :: "action list \<Rightarrow> bool" where
  "no_output as = list_all (\<lambda>a. case a of SetOutput channel level \<Rightarrow> False | _ \<Rightarrow> True) as"

definition quiet :: "world \<Rightarrow> world \<Rightarrow> bool" where
  "quiet w w' =
     (take (length (trace w)) (trace w') = trace w
      \<and> no_output (drop (length (trace w)) (trace w')))"

text \<open>
  The concrete world whose first capture raises the given exception, with the given
  events pending.
\<close>

definition failing_world :: "exn \<Rightarrow> event list \<Rightarrow> world" where
  "failing_world e events = (demo_world [Inl e] [])\<lparr>queue := events\<rparr>"

section \<open>Properties of PictureList\<close>

lemma is_digit_range: "is_digit c \<Longrightarrow> 48 \<le> (of_char c :: nat) \<and> (of_char c :: nat) \<le> 57"
  by (auto simp: is_digit_def)

lemma digit_val_less: "is_digit c \<Longrightarrow> is_digit d \<Longrightarrow> (c < d) = (digit_val c < digit_val d)"
  using is_digit_range [of c] is_digit_range [of d]
  by (auto simp: digit_val_def less_char_def)

lemma digit_val_eq: "is_digit c \<Longrightarrow> is_digit d \<Longrightarrow> (c = d) = (digit_val c = digit_val d)"
proof -
  assume "is_digit c" "is_digit d"
  then have "(digit_val c = digit_val d) = ((of_char c :: nat) = of_char d)"
    using is_digit_range [of c] is_digit_range [of d] unfolding digit_val_def by linarith
  then show ?thesis by simp
qed

lemma digit_val_le9: "is_digit c \<Longrightarrow> digit_val c \<le> 9"
  using is_digit_range [of c] unfolding digit_val_def by linarith

lemma decimal_bound: "list_all is_digit ds \<Longrightarrow> decimal ds < 10 ^ length ds"
proof (induction ds)
  case Nil
  then show ?case by simp
next
  case (Cons c cs)
  then have "digit_val c \<le> 9" and "decimal cs < 10 ^ length cs"
    by (simp_all add: digit_val_le9)
  then have "digit_val c * 10 ^ length cs + decimal cs < 9 * 10 ^ length cs + 10 ^ length cs"
    by (meson add_le_less_mono mult_le_mono1)
  then show ?case by simp
qed

lemma decimal_less:
  "length ds = length es \<Longrightarrow> list_all is_digit ds \<Longrightarrow> list_all is_digit es \<Longrightarrow>
   (ds < es) = (decimal ds < decimal es)"
proof (induction ds es rule: list_induct2)
  case Nil
  then show ?case by simp
next
  case (Cons c cs d ds)
  then have dc: "is_digit c" and dd: "is_digit d"
    and bc: "decimal cs < 10 ^ length cs" and bd: "decimal ds < 10 ^ length cs"
    and ih: "(cs < ds) = (decimal cs < decimal ds)"
    using decimal_bound [of cs] decimal_bound [of ds] by simp_all
  show ?case
  proof (cases "c = d")
    case True
    then show ?thesis using ih Cons.hyps by simp
  next
    case False
    show ?thesis
    proof (cases "c < d")
      case True
      then have "digit_val c + 1 \<le> digit_val d" using digit_val_less [OF dc dd] by simp
      then have "(digit_val c + 1) * 10 ^ length cs \<le> digit_val d * 10 ^ length cs"
        by (rule mult_le_mono1)
      then have "decimal (c # cs) < decimal (d # ds)" using bc Cons.hyps by simp
      then show ?thesis using True by simp
    next
      case False
      then have "d < c" using \<open>c \<noteq> d\<close> by simp
      then have "digit_val d + 1 \<le> digit_val c" using digit_val_less [OF dd dc] by simp
      then have "(digit_val d + 1) * 10 ^ length cs \<le> digit_val c * 10 ^ length cs"
        by (rule mult_le_mono1)
      then have "decimal (d # ds) < decimal (c # cs)" using bd Cons.hyps by simp
      then show ?thesis using False \<open>c \<noteq> d\<close> by simp
    qed
  qed
qed

lemma append_less_cancel: "(xs @ ys < xs @ zs) = (ys < (zs :: 'a :: linorder list))"
  by (induction xs) simp_all

lemma append_less_same_length:
  "length ys = length zs \<Longrightarrow> (ys @ s < zs @ s) = (ys < (zs :: 'a :: linorder list))"
  by (induction ys zs rule: list_induct2) simp_all

lemma picture_less:
  "length ds = length es \<Longrightarrow> list_all is_digit ds \<Longrightarrow> list_all is_digit es \<Longrightarrow>
   (base @ ds @ sfx < base @ es @ sfx) = (decimal ds < decimal es)"
  by (simp add: append_less_cancel append_less_same_length decimal_less)

lemma glob_match_iff:
  "glob_match base w sfx p = (\<exists>ds. p = base @ ds @ sfx \<and> length ds = w \<and> list_all is_digit ds)"
proof
  assume m: "glob_match base w sfx p"
  let ?ds = "take w (drop (length base) p)"
  have "p = take (length base) p @ ?ds @ drop (length base + w) p"
    by (metis append_take_drop_id drop_drop add.commute)
  with m have "p = base @ ?ds @ sfx" by (simp add: glob_match_def)
  moreover from m have "length ?ds = w" by (simp add: glob_match_def)
  moreover from m have "list_all is_digit ?ds" by (simp add: glob_match_def)
  ultimately show "\<exists>ds. p = base @ ds @ sfx \<and> length ds = w \<and> list_all is_digit ds"
    by blast
next
  assume "\<exists>ds. p = base @ ds @ sfx \<and> length ds = w \<and> list_all is_digit ds"
  then show "glob_match base w sfx p" by (auto simp: glob_match_def)
qed

lemma count_slice_picture: "length ds = w \<Longrightarrow> count_slice (base @ ds @ sfx) w (length sfx) = ds"
  by (simp add: count_slice_def)

lemma sorted_le_last: "sorted xs \<Longrightarrow> y \<in> set xs \<Longrightarrow> y \<le> last (xs :: 'a :: linorder list)"
  by (induction xs) auto

lemma last_sort_Max: "xs \<noteq> [] \<Longrightarrow> last (sort xs) = Max (set (xs :: 'a :: linorder list))"
proof -
  assume ne: "xs \<noteq> []"
  then have ne': "sort xs \<noteq> []" by (metis length_sort length_0_conv)
  have "Max (set xs) = last (sort xs)"
  proof (rule Max_eqI)
    show "finite (set xs)" by simp
    show "last (sort xs) \<in> set xs" using last_in_set [OF ne'] by simp
    fix y assume "y \<in> set xs"
    then have "y \<in> set (sort xs)" by simp
    then show "y \<le> last (sort xs)" using sorted_sort [of xs] by (simp add: sorted_le_last)
  qed
  then show ?thesis by simp
qed

lemma py_int_digits: "ds \<noteq> [] \<Longrightarrow> list_all is_digit ds \<Longrightarrow> py_int ds = Inr (int (decimal ds))"
  by (simp add: py_int_def)

lemma length_dirname: "length (dirname p) \<le> length p"
proof -
  have a: "length (rev (dropWhile (\<lambda>c. c \<noteq> CHR ''/'') (rev p))) \<le> length p"
    using length_dropWhile_le [of _ "rev p"] by simp
  have b: "length (rstrip_sep s) \<le> length s" for s
    unfolding rstrip_sep_def using length_dropWhile_le [of _ "rev s"] by simp
  have c: "length (rstrip_sep (rev (dropWhile (\<lambda>c. c \<noteq> CHR ''/'') (rev p)))) \<le> length p"
    using a b [of "rev (dropWhile (\<lambda>c. c \<noteq> CHR ''/'') (rev p))"] by (rule le_trans [rotated])
  show ?thesis
    unfolding dirname_def Let_def using a c by simp
qed

lemma dirname_no_match: "0 < w \<Longrightarrow> \<not> glob_match base w sfx (dirname base)"
  using length_dirname [of base] by (simp add: glob_match_def)

lemma set_glob_count:
  "set (glob_count fs base w sfx) = {p \<in> set (paths fs). glob_match base w sfx p}"
  by (simp add: glob_count_def)

lemma glob_count_makedirs:
  "makedirs fs (dirname base) = Inr fs' \<Longrightarrow> 0 < w \<Longrightarrow>
   glob_count fs' base w sfx = glob_count fs base w sfx"
  by (auto simp: makedirs_def glob_count_def dirname_no_match split: if_splits)

lemma picture_numbers_empty:
  "glob_count fs base 5 ''.jpg'' = [] \<Longrightarrow> picture_numbers fs base = {}"
proof -
  assume e: "glob_count fs base 5 ''.jpg'' = []"
  have "\<not> glob_match base 5 ''.jpg'' p" if "p \<in> set (paths fs)" for p
    using e that by (auto simp: glob_count_def filter_empty_conv)
  then show ?thesis
    unfolding picture_numbers_def glob_match_iff by blast
qed

lemma finite_picture_numbers: "finite (picture_numbers fs base)"
proof -
  have "picture_numbers fs base \<subseteq>
        (\<lambda>p. int (decimal (take 5 (drop (length base) p)))) ` set (paths fs)"
    unfolding picture_numbers_def by force
  then show ?thesis by (rule finite_subset) simp
qed

lemma picture_numbers_Max:
  assumes ne: "glob_count fs base 5 ''.jpg'' \<noteq> []"
  shows "\<exists>ds. last (sort (glob_count fs base 5 ''.jpg'')) = base @ ds @ ''.jpg''
           \<and> length ds = 5 \<and> list_all is_digit ds
           \<and> picture_numbers fs base \<noteq> {}
           \<and> Max (picture_numbers fs base) = int (decimal ds)"
proof -
  let ?ps = "glob_count fs base 5 ''.jpg''"
  let ?m = "last (sort ?ps)"
  have mx: "?m = Max (set ?ps)" using ne by (rule last_sort_Max)
  then have "?m \<in> set ?ps" using ne by (metis Max_in List.finite_set set_empty)
  then have inp: "?m \<in> set (paths fs)" and gm: "glob_match base 5 ''.jpg'' ?m"
    by (simp_all add: set_glob_count)
  from gm obtain ds where ds: "?m = base @ ds @ ''.jpg''" "length ds = 5" "list_all is_digit ds"
    unfolding glob_match_iff by blast
  have mem: "int (decimal ds) \<in> picture_numbers fs base"
    unfolding picture_numbers_def using ds inp by auto
  have ub: "y \<le> int (decimal ds)" if "y \<in> picture_numbers fs base" for y
  proof -
    from that obtain es where es: "y = int (decimal es)" "length es = 5" "list_all is_digit es"
      "base @ es @ ''.jpg'' \<in> set (paths fs)"
      unfolding picture_numbers_def by blast
    then have "glob_match base 5 ''.jpg'' (base @ es @ ''.jpg'')"
      unfolding glob_match_iff by blast
    with es have "base @ es @ ''.jpg'' \<in> set ?ps" by (simp add: set_glob_count)
    then have "base @ es @ ''.jpg'' \<le> ?m" unfolding mx by simp
    then have "\<not> (base @ ds @ ''.jpg'' < base @ es @ ''.jpg'')" using ds by simp
    then have "\<not> decimal ds < decimal es"
      using picture_less [of ds es base "''.jpg''"] ds es by simp
    then show ?thesis using es by simp
  qed
  have "Max (picture_numbers fs base) = int (decimal ds)"
    by (rule Max_eqI) (simp_all add: finite_picture_numbers mem ub)
  then show ?thesis using ds mem by blast
qed

lemma below_ten:
  "k < 10 \<Longrightarrow> k = 0 \<or> k = 1 \<or> k = 2 \<or> k = 3 \<or> k = 4 \<or> k = 5 \<or> k = 6 \<or> k = 7 \<or> k = 8 \<or> k = (9::nat)"
  by arith

lemma zeros_digits: "list_all is_digit (replicate k (CHR ''0''))"
  by (induction k) (simp_all add: is_digit_def)

lemma digit_char_is_digit: "is_digit (digit_char n)"
proof -
  show ?thesis unfolding digit_char_def is_digit_def
    using below_ten [of "n mod 10"] by auto
qed

lemma digit_val_digit_char: "digit_val (digit_char n) = n mod 10"
proof -
  show ?thesis unfolding digit_char_def digit_val_def
    using below_ten [of "n mod 10"] by auto
qed

lemma decimal_snoc: "decimal (cs @ [c]) = decimal cs * 10 + digit_val c"
  by (induction cs) (simp_all add: algebra_simps)

lemma str_nat_digits: "list_all is_digit (str_nat n)"
proof (induction n rule: str_nat.induct)
  case (1 n)
  then show ?case
    by (subst str_nat.simps) (simp add: digit_char_is_digit)
qed

lemma decimal_str_nat: "decimal (str_nat n) = n"
proof (induction n rule: str_nat.induct)
  case (1 n)
  show ?case
  proof (cases "n < 10")
    case True
    then show ?thesis by (subst str_nat.simps) (simp add: digit_val_digit_char)
  next
    case False
    then have "decimal (str_nat (n div 10)) = n div 10" using "1" by simp
    then show ?thesis using False
      by (subst str_nat.simps) (simp add: decimal_snoc digit_val_digit_char)
  qed
qed

lemma length_str_nat: "n < 10 ^ k \<Longrightarrow> 0 < k \<Longrightarrow> length (str_nat n) \<le> k"
proof (induction n arbitrary: k rule: str_nat.induct)
  case (1 n)
  show ?case
  proof (cases "n < 10")
    case True
    then show ?thesis using "1.prems" by (subst str_nat.simps) simp
  next
    case False
    obtain j where k: "k = Suc j" using "1.prems" by (cases k) auto
    have "0 < j" using False "1.prems" k by (cases j) auto
    moreover have "n div 10 < 10 ^ j" using "1.prems" k
      by (simp add: less_mult_imp_div_less mult.commute)
    ultimately have "length (str_nat (n div 10)) \<le> j" using "1.IH" False by simp
    then show ?thesis using False k by (subst str_nat.simps) simp
  qed
qed

lemma str_nat_nonempty: "str_nat n \<noteq> []"
  by (subst str_nat.simps) simp

lemma decimal_zeros: "decimal (replicate k (CHR ''0'') @ s) = decimal s"
  by (induction k) (simp_all add: digit_val_def)

lemma hd_str_nat_digit: "is_digit (hd (str_nat n))"
  using str_nat_digits [of n] str_nat_nonempty [of n] by (cases "str_nat n") simp_all

lemma zfill_str_nat:
  "zfill (str_nat n) w = replicate (w - length (str_nat n)) (CHR ''0'') @ str_nat n"
proof (cases "str_nat n")
  case Nil
  then show ?thesis using str_nat_nonempty by simp
next
  case (Cons c cs)
  then have "is_digit c" using hd_str_nat_digit [of n] by simp
  then have "c \<noteq> CHR ''+''" "c \<noteq> CHR ''-''" by (auto simp: is_digit_def)
  then show ?thesis using Cons by (simp add: zfill_def)
qed

lemma zfill_str_padded:
  assumes "0 \<le> i" "i < 100000"
  shows "length (zfill (str i) 5) = 5 \<and> list_all is_digit (zfill (str i) 5)
         \<and> int (decimal (zfill (str i) 5)) = i"
proof -
  have "nat i < 10 ^ 5" using assms by simp
  then have "length (str_nat (nat i)) \<le> 5" by (rule length_str_nat) simp
  then show ?thesis using assms
    by (simp add: str_def zfill_str_nat decimal_zeros decimal_str_nat str_nat_digits zeros_digits)
qed

lemma str_1: "str 1 = ''1''" by (simp add: str_def str_nat.simps digit_char_def)
lemma str_8: "str 8 = ''8''" by (simp add: str_def str_nat.simps digit_char_def)

text \<open>
  Claim C5. When the directory of the basename exists or can be created,
  \<open>PictureList.__init__\<close> returns, and its counter is the maximum number \<open>N\<close> among the
  existing paths of the form basename, five digits, \<open>.jpg\<close> (0 when there is none).
  \<open>get_next\<close> increments the counter and returns basename, the counter zero-padded to
  width 5, \<open>.jpg\<close>; below 100000 the padded counter is exactly five digits whose decimal
  value is the new counter. With no matching file the first \<open>get_next\<close> returns the path
  numbered 00001; with a file numbered 00007 as the maximum the counter is 7 and
  \<open>get_next\<close> returns the path numbered 00008.
\<close>

theorem PictureList_init_counter_next:
  assumes "path_exists fs (dirname base) \<or> creatable fs (dirname base)"
  shows "\<exists>pl fs' out. PictureList_init fs base = Inr (pl, fs', out)
     \<and> basename pl = base \<and> suffix pl = ''.jpg'' \<and> count_width pl = 5
     \<and> counter pl = (if picture_numbers fs base = {} then 0 else Max (picture_numbers fs base))
     \<and> get_next pl = (base @ zfill (str (counter pl + 1)) 5 @ ''.jpg'', pl\<lparr>counter := counter pl + 1\<rparr>)
     \<and> (counter pl + 1 < 100000 \<longrightarrow>
          length (zfill (str (counter pl + 1)) 5) = 5
          \<and> list_all is_digit (zfill (str (counter pl + 1)) 5)
          \<and> int (decimal (zfill (str (counter pl + 1)) 5)) = counter pl + 1)
     \<and> (picture_numbers fs base = {} \<longrightarrow> fst (get_next pl) = base @ ''00001.jpg'')
     \<and> (base @ ''00007.jpg'' \<in> set (paths fs) \<and> Max (picture_numbers fs base) = 7 \<longrightarrow>
          counter pl = 7 \<and> fst (get_next pl) = base @ ''00008.jpg'')"
proof -
  obtain fs' where fs': "(if \<not> path_exists fs (dirname base) then makedirs fs (dirname base) else Inr fs) = Inr fs'"
    using assms by (cases "path_exists fs (dirname base)") (auto simp: makedirs_def)
  then have gc: "glob_count fs' base 5 ''.jpg'' = glob_count fs base 5 ''.jpg''"
    using glob_count_makedirs [of fs base fs' 5 "''.jpg''"] by (auto split: if_splits)
  let ?ps = "glob_count fs base 5 ''.jpg''"
  let ?c = "if picture_numbers fs base = {} then 0 else Max (picture_numbers fs base)"
  have cnt: "(if length ?ps = 0 then Inr 0
              else py_int (count_slice (last (sort ?ps)) 5 (length ''.jpg''))) = Inr ?c"
  proof (cases "?ps = []")
    case True
    then show ?thesis using picture_numbers_empty [of fs base] by simp
  next
    case False
    from picture_numbers_Max [OF False] obtain ds where
      ds: "last (sort ?ps) = base @ ds @ ''.jpg''" "length ds = 5" "list_all is_digit ds"
        "picture_numbers fs base \<noteq> {}" "Max (picture_numbers fs base) = int (decimal ds)"
      by blast
    have "count_slice (base @ ds @ ''.jpg'') 5 (length ''.jpg'') = ds"
      using ds(2) by (rule count_slice_picture)
    moreover have "py_int ds = Inr (int (decimal ds))"
      using ds(2,3) by (intro py_int_digits) auto
    ultimately show ?thesis using False ds by simp
  qed
  define pl where "pl = \<lparr>basename = base, suffix = ''.jpg'', count_width = 5, counter = ?c\<rparr>"
  have init: "PictureList_init fs base = Inr (pl, fs',
      [''Info: Number of last existing file: '' @ str ?c,
       ''Info: Saving assembled pictures as: '' @ base @ ''XXXXX.jpg''])"
    unfolding PictureList_init_def Let_def fs' sum.case gc cnt pl_def by simp
  have nonneg: "0 \<le> counter pl"
  proof -
    have "0 \<le> y" if "y \<in> picture_numbers fs base" for y
      using that unfolding picture_numbers_def by auto
    then have "picture_numbers fs base \<noteq> {} \<Longrightarrow> 0 \<le> Max (picture_numbers fs base)"
      using finite_picture_numbers [of fs base] by (meson Max_in)
    then show ?thesis by (simp add: pl_def)
  qed
  have flds: "basename pl = base" "suffix pl = ''.jpg''" "count_width pl = 5"
    by (simp_all add: pl_def)
  have nxt: "get_next pl = (base @ zfill (str (counter pl + 1)) 5 @ ''.jpg'', pl\<lparr>counter := counter pl + 1\<rparr>)"
    by (simp add: get_next_def get_def Let_def pl_def)
  have pad: "counter pl + 1 < 100000 \<longrightarrow>
          length (zfill (str (counter pl + 1)) 5) = 5
          \<and> list_all is_digit (zfill (str (counter pl + 1)) 5)
          \<and> int (decimal (zfill (str (counter pl + 1)) 5)) = counter pl + 1"
    using zfill_str_padded [of "counter pl + 1"] nonneg by simp
  have z1: "zfill (str 1) 5 = ''00001''" by (simp add: str_1 zfill_def numeral_eq_Suc)
  have z8: "zfill (str 8) 5 = ''00008''" by (simp add: str_8 zfill_def numeral_eq_Suc)
  have cpl: "counter pl = ?c" by (simp add: pl_def)
  have fresh: "picture_numbers fs base = {} \<longrightarrow> fst (get_next pl) = base @ ''00001.jpg''"
  proof
    assume "picture_numbers fs base = {}"
    then have "counter pl + 1 = 1" using cpl by simp
    then show "fst (get_next pl) = base @ ''00001.jpg''" using nxt z1 by simp
  qed
  have seven: "base @ ''00007.jpg'' \<in> set (paths fs) \<and> Max (picture_numbers fs base) = 7 \<longrightarrow>
          counter pl = 7 \<and> fst (get_next pl) = base @ ''00008.jpg''"
  proof (intro impI, elim conjE)
    assume f: "base @ ''00007.jpg'' \<in> set (paths fs)" and m: "Max (picture_numbers fs base) = 7"
    have "int (decimal ''00007'') \<in> picture_numbers fs base"
      unfolding picture_numbers_def using f by (intro CollectI exI [of _ "''00007''"]) (simp add: is_digit_def)
    then have "picture_numbers fs base \<noteq> {}" by blast
    then have "counter pl = 7" using m cpl by simp
    then show "counter pl = 7 \<and> fst (get_next pl) = base @ ''00008.jpg''"
      using nxt z8 by simp
  qed
  show ?thesis
    using init flds cpl nxt pad fresh seven by blast
qed

lemma dirname_example: "dirname ''2016-01-01/processed'' = ''2016-01-01''"
  by (simp add: dirname_def rstrip_sep_def)

lemma init_seven:
  "PictureList_init fs_seven ''2016-01-01/processed'' =
     Inr (\<lparr>basename = ''2016-01-01/processed'', suffix = ''.jpg'', count_width = 5, counter = 7\<rparr>,
          fs_seven,
          [''Info: Number of last existing file: 7'',
           ''Info: Saving assembled pictures as: 2016-01-01/processedXXXXX.jpg''])"
  by (simp add: Let_def PictureList_init_def dirname_example path_exists_def fs_seven_def glob_count_def
      glob_match_def is_digit_def count_slice_def py_int_def digit_val_def str_def str_nat.simps
      digit_char_def)

lemma init_fresh:
  "PictureList_init fs_fresh ''2016-01-01/processed'' =
     Inr (\<lparr>basename = ''2016-01-01/processed'', suffix = ''.jpg'', count_width = 5, counter = 0\<rparr>,
          fs_fresh\<lparr>paths := [''2016-01-01'']\<rparr>,
          [''Info: Number of last existing file: 0'',
           ''Info: Saving assembled pictures as: 2016-01-01/processedXXXXX.jpg''])"
  by (simp add: Let_def PictureList_init_def dirname_example path_exists_def fs_fresh_def glob_count_def
      makedirs_def glob_match_def str_def str_nat.simps digit_char_def)

text \<open>Claim C5 at two concrete directories.\<close>

theorem PictureList_init_counter_next_witness:
  "path_exists fs_seven (dirname ''2016-01-01/processed'')
   \<and> (\<exists>pl fs' out. PictureList_init fs_seven ''2016-01-01/processed'' = Inr (pl, fs', out)
        \<and> counter pl = 7 \<and> Max (picture_numbers fs_seven ''2016-01-01/processed'') = 7
        \<and> fst (get_next pl) = ''2016-01-01/processed00008.jpg'')
   \<and> creatable fs_fresh (dirname ''2016-01-01/processed'')
   \<and> (\<exists>pl fs' out. PictureList_init fs_fresh ''2016-01-01/processed'' = Inr (pl, fs', out)
        \<and> counter pl = 0 \<and> picture_numbers fs_fresh ''2016-01-01/processed'' = {}
        \<and> fst (get_next pl) = ''2016-01-01/processed00001.jpg'')"
proof -
  have h7: "path_exists fs_seven (dirname ''2016-01-01/processed'')"
    by (simp add: dirname_example path_exists_def fs_seven_def)
  have h0: "creatable fs_fresh (dirname ''2016-01-01/processed'')"
    by (simp add: dirname_example fs_fresh_def)
  have in7: "''2016-01-01/processed'' @ ''00007.jpg'' \<in> set (paths fs_seven)"
    by (simp add: fs_seven_def)
  have e0: "picture_numbers fs_fresh ''2016-01-01/processed'' = {}"
    by (simp add: picture_numbers_def fs_fresh_def)
  from PictureList_init_counter_next [of fs_seven "''2016-01-01/processed''"] h7
  obtain pl fs' out where
    a: "PictureList_init fs_seven ''2016-01-01/processed'' = Inr (pl, fs', out)"
    and b: "counter pl = (if picture_numbers fs_seven ''2016-01-01/processed'' = {} then 0
                          else Max (picture_numbers fs_seven ''2016-01-01/processed''))"
    and c: "''2016-01-01/processed'' @ ''00007.jpg'' \<in> set (paths fs_seven)
            \<and> Max (picture_numbers fs_seven ''2016-01-01/processed'') = 7 \<longrightarrow>
            counter pl = 7 \<and> fst (get_next pl) = ''2016-01-01/processed'' @ ''00008.jpg''"
    by blast
  have c7: "counter pl = 7" using a init_seven by auto
  have "int (decimal ''00007'') \<in> picture_numbers fs_seven ''2016-01-01/processed''"
    unfolding picture_numbers_def using in7
    by (intro CollectI exI [of _ "''00007''"]) (simp add: is_digit_def)
  then have "picture_numbers fs_seven ''2016-01-01/processed'' \<noteq> {}" by blast
  then have m7: "Max (picture_numbers fs_seven ''2016-01-01/processed'') = 7" using b c7 by simp
  then have n7: "fst (get_next pl) = ''2016-01-01/processed00008.jpg''" using c in7 by simp
  from PictureList_init_counter_next [of fs_fresh "''2016-01-01/processed''"] h0
  obtain pl0 fs0 out0 where
    a0: "PictureList_init fs_fresh ''2016-01-01/processed'' = Inr (pl0, fs0, out0)"
    and b0: "counter pl0 = (if picture_numbers fs_fresh ''2016-01-01/processed'' = {} then 0
                          else Max (picture_numbers fs_fresh ''2016-01-01/processed''))"
    and c0: "picture_numbers fs_fresh ''2016-01-01/processed'' = {} \<longrightarrow>
             fst (get_next pl0) = ''2016-01-01/processed'' @ ''00001.jpg''"
    by blast
  have "counter pl0 = 0" using b0 e0 by simp
  moreover have "fst (get_next pl0) = ''2016-01-01/processed00001.jpg''" using c0 e0 by simp
  ultimately show ?thesis using h7 h0 a c7 m7 n7 a0 e0 by blast
qed

text \<open>
  Claim C6. \<open>get\<close> and \<open>get_last\<close> return the object unchanged, \<open>get_next\<close> adds exactly 1
  to the counter, no operation decreases it, and over any sequence of operations the
  counter never decreases: it grows by the number of \<open>get_next\<close> calls.
\<close>

theorem PictureList_counter_monotone:
  "snd (pl_step pl (Get c)) = pl
   \<and> snd (pl_step pl GetLast) = pl
   \<and> counter (snd (pl_step pl GetNext)) = counter pl + 1
   \<and> counter pl \<le> counter (snd (pl_step pl op))
   \<and> counter pl \<le> counter (pl_run pl ops)
   \<and> counter (pl_run pl ops) = counter pl + int (length (filter (\<lambda>op. op = GetNext) ops))"
proof -
  have step: "counter (snd (pl_step p op)) = counter p + (if op = GetNext then 1 else 0)" for p op
    by (cases op) (simp_all add: get_next_def Let_def)
  have run: "counter (pl_run p ops) = counter p + int (length (filter (\<lambda>op. op = GetNext) ops))" for p
    by (induction ops arbitrary: p) (simp_all add: step)
  show ?thesis
    using step [of pl op] run [of pl] by (simp add: get_next_def Let_def)
qed

text \<open>Claim C6 on a run of four operations from counter 7.\<close>

theorem PictureList_counter_monotone_witness:
  "counter (pl_run \<lparr>basename = ''d/p'', suffix = ''.jpg'', count_width = 5, counter = 7\<rparr>
                   [GetNext, Get 3, GetLast, GetNext]) = 9
   \<and> (7::int) \<le> 9"
  using PictureList_counter_monotone
    [of "\<lparr>basename = ''d/p'', suffix = ''.jpg'', count_width = 5, counter = 7\<rparr>" 0 GetLast
        "[GetNext, Get 3, GetLast, GetNext]"]
  by simp

text \<open>
  Claim C10. In every state, \<open>get_last\<close> called right after \<open>get_next\<close> returns the path
  that \<open>get_next\<close> returned.
\<close>

theorem get_last_after_get_next: "get_last (snd (get_next pl)) = fst (get_next pl)"
  by (simp add: get_last_def get_next_def Let_def)

text \<open>Claim C10 at counter 7.\<close>

theorem get_last_after_get_next_witness:
  "get_last (snd (get_next \<lparr>basename = ''d/p'', suffix = ''.jpg'', count_width = 5, counter = 7\<rparr>))
     = ''d/p00008.jpg''"
proof -
  have "fst (get_next \<lparr>basename = ''d/p'', suffix = ''.jpg'', count_width = 5, counter = 7\<rparr>)
          = ''d/p00008.jpg''"
    by (simp add: get_next_def get_def Let_def str_8 zfill_def numeral_eq_Suc)
  then show ?thesis
    using get_last_after_get_next
      [of "\<lparr>basename = ''d/p'', suffix = ''.jpg'', count_width = 5, counter = 7\<rparr>"]
    by simp
qed

section \<open>Properties of the composite layout\<close>

lemma scale_le: "0 \<le> a \<Longrightarrow> b \<le> c \<Longrightarrow> 0 < c \<Longrightarrow> a * b div c \<le> (a::int)"
proof -
  assume a: "0 \<le> a" and bc: "b \<le> c" and c: "0 < c"
  have "a * b \<le> a * c" using a bc by (rule mult_left_mono[rotated])
  then have "a * b div c \<le> a * c div c" using c by (rule zdiv_mono1)
  then show ?thesis using c by simp
qed

lemma thumbnail_fits:
  assumes "0 < bw" "0 < bh" "0 < x" "0 < y"
  shows "0 < fst (thumbnail (bw, bh) (x, y)) \<and> fst (thumbnail (bw, bh) (x, y)) \<le> bw
       \<and> 0 < snd (thumbnail (bw, bh) (x, y)) \<and> snd (thumbnail (bw, bh) (x, y)) \<le> bh
       \<and> fst (thumbnail (bw, bh) (x, y)) \<le> x \<and> snd (thumbnail (bw, bh) (x, y)) \<le> y"
proof -
  define y1 where "y1 = (if x > bw then max (y * bw div x) 1 else y)"
  define x1 where "x1 = (if x > bw then bw else x)"
  have y1: "0 < y1" "y1 \<le> y" using assms scale_le [of y bw x] by (auto simp: y1_def)
  have x1: "0 < x1" "x1 \<le> x" "x1 \<le> bw" using assms by (auto simp: x1_def)
  have t: "thumbnail (bw, bh) (x, y) = (if y1 > bh then (max (x1 * bh div y1) 1, bh) else (x1, y1))"
    by (simp add: thumbnail_def x1_def y1_def Let_def)
  show ?thesis
  proof (cases "y1 > bh")
    case True
    have "x1 * bh div y1 \<le> x1" using x1 y1 True scale_le [of x1 bh y1] by simp
    then show ?thesis using True t x1 y1 assms by auto
  next
    case False
    then show ?thesis using t x1 y1 by auto
  qed
qed

lemma div_bounds: "0 < (c::int) \<Longrightarrow> a div c * c \<le> a \<and> a < a div c * c + c"
proof -
  assume c: "0 < c"
  have "a = a div c * c + a mod c" by simp
  moreover have "0 \<le> a mod c" "a mod c < c" using c by simp_all
  ultimately show ?thesis by linarith
qed

lemma scale_step:
  assumes "0 < (x::int)" "0 < y" "0 < b"
  shows "\<bar>b * y - max (y * b div x) 1 * x\<bar> < x"
proof -
  define q where "q = y * b div x"
  have qb: "q * x \<le> y * b" "y * b < q * x + x" using div_bounds [OF assms(1), of "y * b"] by (simp_all add: q_def)
  have yb: "0 < y * b" using assms by simp
  show ?thesis
  proof (cases "1 \<le> q")
    case True
    then have "max q 1 = q" by simp
    then show ?thesis using qb unfolding q_def [symmetric] by (simp add: mult.commute)
  next
    case False
    have "0 \<le> q" unfolding q_def using yb assms(1) by (simp add: pos_imp_zdiv_nonneg_iff)
    then have q0: "q = 0" using False by simp
    then have "max q 1 = 1" by simp
    then show ?thesis using qb yb q0 unfolding q_def [symmetric] by (simp add: mult.commute)
  qed
qed

lemma scale_step_exact:
  assumes "0 < (x::int)" "0 < y" "0 < b" "1 \<le> y * b div x"
  shows "0 \<le> b * y - max (y * b div x) 1 * x" "b * y - max (y * b div x) 1 * x < x"
proof -
  define q where "q = y * b div x"
  have qb: "q * x \<le> y * b" "y * b < q * x + x" using div_bounds [OF assms(1), of "y * b"] by (simp_all add: q_def)
  have "max q 1 = q" using assms(4) by (simp add: q_def)
  then show "0 \<le> b * y - max (y * b div x) 1 * x" "b * y - max (y * b div x) 1 * x < x"
    using qb unfolding q_def [symmetric] by (simp_all add: mult.commute)
qed

lemma thumbnail_aspect:
  assumes "0 < bw" "0 < bh" "0 < x" "0 < y"
  shows "\<bar>fst (thumbnail (bw, bh) (x, y)) * y - snd (thumbnail (bw, bh) (x, y)) * x\<bar> < max x y"
proof -
  define y1 where "y1 = (if x > bw then max (y * bw div x) 1 else y)"
  define x1 where "x1 = (if x > bw then bw else x)"
  have t: "thumbnail (bw, bh) (x, y) = (if y1 > bh then (max (x1 * bh div y1) 1, bh) else (x1, y1))"
    by (simp add: thumbnail_def x1_def y1_def Let_def)
  show ?thesis
  proof (cases "x > bw")
    case False
    then have xy: "x1 = x" "y1 = y" by (simp_all add: x1_def y1_def)
    show ?thesis
    proof (cases "y > bh")
      case False
      then show ?thesis using t xy assms by simp
    next
      case True
      have "\<bar>bh * x - max (x * bh div y) 1 * y\<bar> < y" using assms by (intro scale_step)
      then show ?thesis using t xy True by (simp add: mult.commute abs_minus_commute)
    qed
  next
    case True
    then have xy: "x1 = bw" "y1 = max (y * bw div x) 1" by (simp_all add: x1_def y1_def)
    show ?thesis
    proof (cases "y1 > bh")
      case False
      have "\<bar>bw * y - max (y * bw div x) 1 * x\<bar> < x" using assms by (intro scale_step)
      then show ?thesis using t xy False by simp
    next
      case big: True
      define q where "q = y * bw div x"
      define w where "w = max (bw * bh div q) 1"
      have q: "y1 = q" "2 \<le> q" "bh < q" using big xy assms by (auto simp: q_def)
      have tw: "thumbnail (bw, bh) (x, y) = (w, bh)" using t big xy q by (simp add: w_def)
      have d1: "0 \<le> bw * y - q * x" "bw * y - q * x < x"
        using scale_step_exact [of x y bw] assms q unfolding q_def by simp_all
      have qpos: "0 < q" using q by simp
      show ?thesis
      proof (cases "1 \<le> bw * bh div q")
        case True
        have d2: "0 \<le> bh * bw - w * q" "bh * bw - w * q < q"
          using scale_step_exact [of q bw bh] assms qpos True unfolding w_def by simp_all
        have key: "q * (w * y - bh * x) = bh * (bw * y - q * x) - y * (bh * bw - w * q)"
          by (simp add: algebra_simps)
        have up: "bh * (bw * y - q * x) - y * (bh * bw - w * q) < q * x"
        proof -
          have "bh * (bw * y - q * x) \<le> bh * x" using d1 assms by (simp add: mult_left_mono)
          moreover have "bh * x < q * x" using q assms by simp
          moreover have "0 \<le> y * (bh * bw - w * q)" using d2 assms by simp
          ultimately show ?thesis by linarith
        qed
        have lo: "- (q * y) < bh * (bw * y - q * x) - y * (bh * bw - w * q)"
        proof -
          have "0 \<le> bh * (bw * y - q * x)" using d1 assms by simp
          moreover have "y * (bh * bw - w * q) < y * q" using d2 assms by simp
          ultimately show ?thesis by (simp add: mult.commute)
        qed
        have "q * (w * y - bh * x) < q * x" using key up by simp
        then have a: "w * y - bh * x < x" using qpos by simp
        have "q * (- y) < q * (w * y - bh * x)" using key lo by simp
        then have b: "- y < w * y - bh * x" using qpos by (simp only: mult_less_cancel_left_pos)
        show ?thesis using a b tw by simp
      next
        case False
        have "0 \<le> bw * bh div q" using assms qpos by (simp add: pos_imp_zdiv_nonneg_iff)
        then have z: "bw * bh div q = 0" using False by simp
        then have w1: "w = 1" by (simp add: w_def)
        have "bw * bh < q" using div_bounds [OF qpos, of "bw * bh"] z by simp
        then have "bw * bh * x < q * x" using assms by simp
        also have "\<dots> \<le> bw * y" using d1 by simp
        finally have "bw * (bh * x) < bw * y" by (simp add: mult.assoc)
        then have "bh * x < y" using assms by simp
        moreover have "0 < bh * x" using assms by simp
        ultimately show ?thesis using tw w1 by simp
      qed
    qed
  qed
qed

lemma assemble_pictures_ok:
  fixes pb :: photobooth and w :: world
  assumes "images w f0 = Inr s0" "images w f1 = Inr s1" "images w f2 = Inr s2" "images w f3 = Inr s3"
  defines "cx \<equiv> fst (pic_size pb) div 2" and "cy \<equiv> snd (pic_size pb) div 2"
  defines "box \<equiv> (cx - 70, cy - 70)"
  defines "name \<equiv> picture_basename pb @ stamps w (stamp_ix w) @ ''.jpg''"
  shows "assemble_pictures pb [File f0, File f1, File f2, File f3] w =
     Return name
       (emit (SaveImage name
          \<lparr>canvas_size = pic_size pb, background = (255, 255, 255),
           pastes = [(thumbnail box s0, (cx - 20 - fst (thumbnail box s0), cy - 20 - snd (thumbnail box s0))),
                     (thumbnail box s1, (cx + 20, cy - 20 - snd (thumbnail box s1))),
                     (thumbnail box s2, (cx - 20 - fst (thumbnail box s2), cy + 20)),
                     (thumbnail box s3, (cx + 20, cy + 20))]\<rparr>)
          (w\<lparr>stamp_ix := stamp_ix w + 1\<rparr>))"
proof -
  have o: "open_thumbnail [File f0, File f1, File f2, File f3] 0 b w = Inr (thumbnail b s0)"
          "open_thumbnail [File f0, File f1, File f2, File f3] 1 b w = Inr (thumbnail b s1)"
          "open_thumbnail [File f0, File f1, File f2, File f3] 2 b w = Inr (thumbnail b s2)"
          "open_thumbnail [File f0, File f1, File f2, File f3] 3 b w = Inr (thumbnail b s3)" for b
    using assms(1-4) by (simp_all add: open_thumbnail_def index_def numeral_eq_Suc)
  have b: "(half (fst (pic_size pb)) - 50 - 20, half (snd (pic_size pb)) - 50 - 20) = box"
    by (simp add: box_def cx_def cy_def half_def)
  show ?thesis
    unfolding assemble_pictures_def Let_def fst_conv snd_conv b o sum.case
    by (simp add: paste_def strftime_hms_def emit_def name_def cx_def cy_def half_def)
qed

lemma placements_Return_emit:
  "placements (Return name (emit (SaveImage name' c) w)) = pastes c"
  by (simp add: placements_def emit_def)

lemma less_4_cases: "k < 4 \<Longrightarrow> k = 0 \<or> k = 1 \<or> k = 2 \<or> k = (3::nat)"
  by arith

text \<open>
  Claim C3. On the canvas (2352, 1568), for four input images that open with positive
  dimensions, \<open>assemble_pictures\<close> returns and saves a composite of four thumbnails. For
  quadrants \<open>j\<close> and \<open>k\<close>: thumbnail \<open>k\<close> is the source scaled into the box (1106, 714);
  two different thumbnails share no pixel; thumbnail \<open>k\<close> lies inside quadrant \<open>k\<close>
  shrunk by the borders; its width and height are positive and never exceed those of its
  source; and its aspect ratio is the source's up to the rounding to whole pixels (the
  cross product of the sizes differs by less than the larger source side).
\<close>

theorem assemble_pictures_layout:
  fixes pb :: photobooth and w :: world
  assumes canvas: "pic_size pb = (2352, 1568)"
    and imgs: "images w f0 = Inr s0" "images w f1 = Inr s1" "images w f2 = Inr s2"
      "images w f3 = Inr s3"
    and pos: "list_all (\<lambda>s. 0 < fst s \<and> 0 < snd s) [s0, s1, s2, s3]"
    and jk: "j < 4" "k < 4"
  defines "r \<equiv> assemble_pictures pb [File f0, File f1, File f2, File f3] w"
  defines "src \<equiv> [s0, s1, s2, s3] ! k"
  shows "r = Return (picture_basename pb @ stamps w (stamp_ix w) @ ''.jpg'')
               (emit (SaveImage (picture_basename pb @ stamps w (stamp_ix w) @ ''.jpg'')
                        \<lparr>canvas_size = (2352, 1568), background = (255, 255, 255),
                         pastes = placements r\<rparr>)
                     (w\<lparr>stamp_ix := stamp_ix w + 1\<rparr>))
       \<and> length (placements r) = 4
       \<and> fst (placements r ! k) = thumbnail (1106, 714) src
       \<and> (j \<noteq> k \<longrightarrow> pixels (placements r ! j) \<inter> pixels (placements r ! k) = {})
       \<and> pixels (placements r ! k) \<subseteq> quadrant_inner (2352, 1568) k
       \<and> 0 < fst (fst (placements r ! k)) \<and> fst (fst (placements r ! k)) \<le> fst src
       \<and> 0 < snd (fst (placements r ! k)) \<and> snd (fst (placements r ! k)) \<le> snd src
       \<and> \<bar>fst (fst (placements r ! k)) * snd src - snd (fst (placements r ! k)) * fst src\<bar>
           < max (fst src) (snd src)"
proof -
  define t where "t = (\<lambda>s. thumbnail (1106, 714) s)"
  define ps where "ps = [(t s0, (1176 - 20 - fst (t s0), 784 - 20 - snd (t s0))),
                     (t s1, (1176 + 20, 784 - 20 - snd (t s1))),
                     (t s2, (1176 - 20 - fst (t s2), 784 + 20)),
                     (t s3, (1176 + 20, 784 + 20))]"
  have r: "r = Return (picture_basename pb @ stamps w (stamp_ix w) @ ''.jpg'')
               (emit (SaveImage (picture_basename pb @ stamps w (stamp_ix w) @ ''.jpg'')
                        \<lparr>canvas_size = (2352, 1568), background = (255, 255, 255), pastes = ps\<rparr>)
                     (w\<lparr>stamp_ix := stamp_ix w + 1\<rparr>))"
    unfolding r_def using assemble_pictures_ok [OF imgs, of pb] canvas
    by (simp add: ps_def t_def)
  have pl: "placements r = ps" unfolding r by (simp add: placements_Return_emit)
  have fits: "0 < fst (t s) \<and> fst (t s) \<le> 1106 \<and> 0 < snd (t s) \<and> snd (t s) \<le> 714
       \<and> fst (t s) \<le> fst s \<and> snd (t s) \<le> snd s
       \<and> \<bar>fst (t s) * snd s - snd (t s) * fst s\<bar> < max (fst s) (snd s)"
    if "0 < fst s" "0 < snd s" for s
    using thumbnail_fits [of 1106 714 "fst s" "snd s"] thumbnail_aspect [of 1106 714 "fst s" "snd s"] that
    by (simp add: t_def)
  have f0: "0 < fst s0" "0 < snd s0" and f1: "0 < fst s1" "0 < snd s1"
    and f2: "0 < fst s2" "0 < snd s2" and f3: "0 < fst s3" "0 < snd s3"
    using pos by simp_all
  have len: "length ps = 4" by (simp add: ps_def)
  have nth: "ps ! 0 = (t s0, (1156 - fst (t s0), 764 - snd (t s0)))"
    "ps ! 1 = (t s1, (1196, 764 - snd (t s1)))"
    "ps ! 2 = (t s2, (1156 - fst (t s2), 804))"
    "ps ! 3 = (t s3, (1196, 804))"
    "ps ! Suc 0 = (t s1, (1196, 764 - snd (t s1)))"
    by (simp_all add: ps_def numeral_eq_Suc)
  have left_right: "pixels (ps ! a) \<inter> pixels (ps ! b) = {}" "pixels (ps ! b) \<inter> pixels (ps ! a) = {}"
    if "a = 0 \<or> a = 2" "b = 1 \<or> b = 3" for a b
    using that by (auto simp: nth pixels_def)
  have top_bottom: "pixels (ps ! a) \<inter> pixels (ps ! b) = {}" "pixels (ps ! b) \<inter> pixels (ps ! a) = {}"
    if "a = 0 \<or> a = 1" "b = 2 \<or> b = 3" for a b
    using that by (auto simp: nth pixels_def)
  have disj: "j \<noteq> k \<longrightarrow> pixels (ps ! j) \<inter> pixels (ps ! k) = {}"
    using less_4_cases [OF jk(1)] less_4_cases [OF jk(2)]
    by (elim disjE) (simp_all add: left_right top_bottom)
  have in0: "pixels (ps ! 0) \<subseteq> quadrant_inner (2352, 1568) 0"
    using fits [OF f0] by (auto simp: nth pixels_def quadrant_inner_def)
  have in1: "pixels (ps ! 1) \<subseteq> quadrant_inner (2352, 1568) 1"
    using fits [OF f1] by (auto simp: nth pixels_def quadrant_inner_def)
  have in2: "pixels (ps ! 2) \<subseteq> quadrant_inner (2352, 1568) 2"
    using fits [OF f2] by (auto simp: nth pixels_def quadrant_inner_def)
  have in3: "pixels (ps ! 3) \<subseteq> quadrant_inner (2352, 1568) 3"
    using fits [OF f3] by (auto simp: nth pixels_def quadrant_inner_def)
  have inside: "pixels (ps ! k) \<subseteq> quadrant_inner (2352, 1568) k"
    using less_4_cases [OF jk(2)] in0 in1 in2 in3 by (elim disjE) simp_all
  have srcs: "src = s0 \<and> k = 0 \<or> src = s1 \<and> k = 1 \<or> src = s2 \<and> k = 2 \<or> src = s3 \<and> k = 3"
    using less_4_cases [OF jk(2)] by (auto simp: src_def)
  have thumb: "fst (ps ! k) = t src"
    using srcs by (auto simp: nth)
  have spos: "0 < fst src" "0 < snd src"
    using srcs f0 f1 f2 f3 by auto
  note bounds = fits [OF spos]
  have r': "r = Return (picture_basename pb @ stamps w (stamp_ix w) @ ''.jpg'')
               (emit (SaveImage (picture_basename pb @ stamps w (stamp_ix w) @ ''.jpg'')
                        \<lparr>canvas_size = (2352, 1568), background = (255, 255, 255),
                         pastes = placements r\<rparr>)
                     (w\<lparr>stamp_ix := stamp_ix w + 1\<rparr>))"
    using r pl by simp
  have tk: "fst (placements r ! k) = t src" using thumb pl by simp
  show ?thesis
    apply (intro conjI)
    subgoal by (rule r')
    subgoal using len pl by simp
    subgoal using tk by (simp add: t_def)
    subgoal using disj pl by simp
    subgoal using inside pl by simp
    subgoal using bounds tk by simp
    subgoal using bounds tk by simp
    subgoal using bounds tk by simp
    subgoal using bounds tk by simp
    subgoal using bounds tk by simp
    done
qed

lemma demo_images:
  "images (demo_world outcomes readings) ''a.jpg'' = Inr (4752, 3168)"
  "images (demo_world outcomes readings) ''b.jpg'' = Inr (4752, 3168)"
  "images (demo_world outcomes readings) ''small.jpg'' = Inr (640, 480)"
  "images (demo_world outcomes readings) ''d.jpg'' = Inr (4752, 3168)"
  by (simp_all add: demo_world_def)

lemma thumbnail_camera: "thumbnail (1106, 714) (4752, 3168) = (1071, 714)"
  by (simp add: thumbnail_def)

lemma thumbnail_small: "thumbnail (1106, 714) (640, 480) = (640, 480)"
  by (simp add: thumbnail_def)

lemma demo_placements:
  "placements (assemble_pictures demo_booth demo_files (demo_world outcomes readings)) =
     [((1071, 714), (85, 50)), ((1071, 714), (1196, 50)),
      ((640, 480), (516, 804)), ((1071, 714), (1196, 804))]"
proof -
  have c: "pic_size demo_booth = (2352, 1568)" by (simp add: demo_booth_def)
  show ?thesis
    unfolding demo_files_def assemble_pictures_ok [OF demo_images] placements_Return_emit c
    by (simp add: thumbnail_camera thumbnail_small)
qed

text \<open>Claim C3 on camera-sized images and one small image.\<close>

theorem assemble_pictures_layout_witness:
  "pic_size demo_booth = (2352, 1568)
   \<and> images (demo_world [] []) ''a.jpg'' = Inr (4752, 3168)
   \<and> images (demo_world [] []) ''b.jpg'' = Inr (4752, 3168)
   \<and> images (demo_world [] []) ''small.jpg'' = Inr (640, 480)
   \<and> images (demo_world [] []) ''d.jpg'' = Inr (4752, 3168)
   \<and> list_all (\<lambda>s. 0 < fst s \<and> 0 < snd s) ([(4752, 3168), (4752, 3168), (640, 480), (4752, 3168)] :: size list)
   \<and> placements (assemble_pictures demo_booth demo_files (demo_world [] [])) =
       [((1071, 714), (85, 50)), ((1071, 714), (1196, 50)),
        ((640, 480), (516, 804)), ((1071, 714), (1196, 804))]
   \<and> pixels ((1071, 714), (85, 50)) \<inter> pixels ((640, 480), (516, 804)) = {}
   \<and> pixels ((640, 480), (516, 804)) \<subseteq> quadrant_inner (2352, 1568) 2"
proof -
  have c: "pic_size demo_booth = (2352, 1568)" by (simp add: demo_booth_def)
  have p: "list_all (\<lambda>s. 0 < fst s \<and> 0 < snd s) ([(4752, 3168), (4752, 3168), (640, 480), (4752, 3168)] :: size list)"
    by simp
  have j: "(0::nat) < 4" and k: "(2::nat) < 4" by simp_all
  note t = assemble_pictures_layout [OF c demo_images p j k, of "[]" "[]",
      folded demo_files_def, unfolded demo_placements]
  from t have "pixels ([((1071, 714), (85, 50)), ((1071, 714), (1196, 50)),
        ((640, 480), (516, 804)), ((1071, 714), (1196, 804))] ! 0) \<inter> pixels ([((1071, 714), (85, 50)), ((1071, 714), (1196, 50)),
        ((640, 480), (516, 804)), ((1071, 714), (1196, 804))] ! 2) = {}"
    and "pixels ([((1071, 714), (85, 50)), ((1071, 714), (1196, 50)),
        ((640, 480), (516, 804)), ((1071, 714), (1196, 804))] ! 2) \<subseteq> quadrant_inner (2352, 1568) 2"
    by simp_all
  then have "pixels ((1071, 714), (85, 50)) \<inter> pixels ((640, 480), (516, 804)) = {}"
    and "pixels ((640, 480), (516, 804)) \<subseteq> quadrant_inner (2352, 1568) 2"
    by simp_all
  then show ?thesis using c p demo_images [of "[]" "[]"] demo_placements [of "[]" "[]"] by simp
qed




section \<open>Properties of the capture loop\<close>

lemma deliver_eq: "deliver pb w i = w\<lparr>queue := queue w @ posted pb [i]\<rparr>"
  by (cases i) (simp_all add: deliver_def handle_gpio_def trigger_event_def posted_def)

lemma posted_Cons: "posted pb (i # inputs) = posted pb [i] @ posted pb inputs"
  by (simp add: posted_def)

lemma foldl_deliver: "foldl (deliver pb) w inputs = w\<lparr>queue := queue w @ posted pb inputs\<rparr>"
proof (induction inputs arbitrary: w)
  case Nil
  then show ?case by (simp add: posted_def)
next
  case (Cons i inputs)
  have "foldl (deliver pb) w (i # inputs) = foldl (deliver pb) (deliver pb w i) inputs" by simp
  also have "\<dots> = (deliver pb w i)\<lparr>queue := queue (deliver pb w i) @ posted pb inputs\<rparr>"
    by (rule Cons.IH)
  also have "\<dots> = w\<lparr>queue := queue w @ posted pb (i # inputs)\<rparr>"
    by (simp add: deliver_eq posted_Cons [of pb i inputs])
  finally show ?case .
qed

lemma absorb_eq:
  "absorb pb w = w\<lparr>arrival_ix := arrival_ix w + 1,
                    queue := queue w @ posted pb (arrivals w (arrival_ix w))\<rparr>"
  by (simp add: absorb_def foldl_deliver)

lemmas prim_defs = emit_def time_def strftime_hms_def sleep_def set_output_def display_clear_def
  show_message_def show_picture_def display_apply_def print_def set_idle_def absorb_eq
  camera_take_picture_def camera_take_preview_def

lemma pad_sleep_eq:
  "pad_sleep pb tic w =
     (let toc = clock w (clock_ix w) - tic
      in w\<lparr>clock_ix := clock_ix w + 1,
           trace := trace w @ pad_actions toc,
           arrival_ix := arrival_ix w + (if toc < 1 then 1 else 0),
           queue := queue w @ (if toc < 1 then posted pb (arrivals w (arrival_ix w)) else [])\<rparr>)"
  by (simp add: pad_sleep_def prim_defs pad_actions_def Let_def)

lemma store_in_range: "0 \<le> i \<Longrightarrow> i < int (length xs) \<Longrightarrow> store xs i v = Inr (xs[nat i := v])"
  by (simp add: store_def)

lemma attempt_success:
  assumes "captures w (capture_ix w) = Inr f" "0 \<le> x" "x < int (length fns)"
  shows "\<exists>w'. capture_attempt pb x r fns w = Return (0, fns[nat x := File f]) w'
       \<and> clock w' = clock w \<and> captures w' = captures w
       \<and> clock_ix w' = clock_ix w + 2 \<and> capture_ix w' = capture_ix w + 1
       \<and> trace w' = trace w @ smile_actions x
            @ pad_actions (clock w (clock_ix w + 1) - clock w (clock_ix w))"
  using assms
  by (simp add: capture_attempt_def prim_defs pad_sleep_eq Let_def smile_actions_def
      store_in_range)

lemma attempt_retry:
  assumes "captures w (capture_ix w) = Inl (CameraException m True)" "1 < r"
  shows "\<exists>w'. capture_attempt pb x r fns w = Return (r - 1, fns) w'
       \<and> clock w' = clock w \<and> captures w' = captures w
       \<and> clock_ix w' = clock_ix w + 2 \<and> capture_ix w' = capture_ix w + 1
       \<and> trace w' = trace w @ smile_actions x @ retry_actions m
            @ pad_actions (clock w (clock_ix w + 1) - clock w (clock_ix w))"
  using assms
  by (simp add: capture_attempt_def prim_defs pad_sleep_eq Let_def smile_actions_def retry_actions_def)

lemma attempt_give_up:
  assumes "captures w (capture_ix w) = Inl (CameraException m True)" "r \<le> 1"
  shows "\<exists>w'. capture_attempt pb x r fns w = Raise (CameraException ''Giving up! Please start over!'' False) w'
       \<and> clock_ix w' = clock_ix w + 1 \<and> capture_ix w' = capture_ix w + 1
       \<and> trace w' = trace w @ smile_actions x"
  using assms
  by (simp add: capture_attempt_def prim_defs Let_def smile_actions_def)

lemma attempt_raise:
  assumes "captures w (capture_ix w) = Inl e" "\<forall>m. e \<noteq> CameraException m True"
  shows "\<exists>w'. capture_attempt pb x r fns w = Raise e w'
       \<and> clock_ix w' = clock_ix w + 1 \<and> capture_ix w' = capture_ix w + 1
       \<and> trace w' = trace w @ smile_actions x"
  using assms
  by (cases e) (simp_all add: capture_attempt_def prim_defs Let_def smile_actions_def)

lemma capture_loop_done: "capture_loop pb x 0 fns w = Return fns w"
  by (simp add: capture_loop.simps)

lemma capture_loop_step:
  "0 < r \<Longrightarrow> capture_attempt pb x r fns w = Return (r', fns') w' \<Longrightarrow>
   capture_loop pb x r fns w = capture_loop pb x r' fns' w'"
  by (subst capture_loop.simps) simp

lemma capture_loop_raise:
  "0 < r \<Longrightarrow> capture_attempt pb x r fns w = Raise e w' \<Longrightarrow>
   capture_loop pb x r fns w = Raise e w'"
  by (subst capture_loop.simps) simp

lemma the_world_simps [simp]:
  "the_world (Return v w) = w" "the_world (Raise e w) = w" "the_world (Unfinished w) = w"
  by (simp_all add: the_world_def)

lemma returned_simps [simp]:
  "returned (Return v w) = Some v" "returned (Raise e w) = None" "returned (Unfinished w) = None"
  by (simp_all add: returned_def)

lemma raised_simps [simp]:
  "raised (Return v w) = None" "raised (Raise e w) = Some e" "raised (Unfinished w) = None"
  by (simp_all add: raised_def)

text \<open>
  Claim C8. A capture attempt whose camera call succeeds measures \<open>toc\<close>, the clock after
  the capture minus the clock before it. When \<open>toc\<close> is under 1 second the attempt ends
  with a sleep of exactly \<open>1 - toc\<close> seconds, and with no sleep otherwise; the measured
  time plus the time slept after the capture is at least 1 second; and nothing follows
  the pad: the retry loop returns in the world the attempt ends in.
\<close>

theorem pad_after_successful_capture:
  fixes pb :: photobooth and w :: world and x remaining_attempts :: int
    and filenames :: "slot list"
  assumes ok: "captures w (capture_ix w) = Inr filename"
    and inr: "0 \<le> x" "x < int (length filenames)"
  defines "toc \<equiv> clock w (clock_ix w + 1) - clock w (clock_ix w)"
  defines "r \<equiv> capture_attempt pb x remaining_attempts filenames w"
  shows "returned r = Some (0, filenames[nat x := File filename])
       \<and> clock_ix (the_world r) = clock_ix w + 2
       \<and> trace (the_world r) =
           trace w @ smile_actions x @ (if toc < 1 then [Sleep (1 - toc)] else [])
       \<and> 1 \<le> toc + slept (drop (length (trace w @ smile_actions x)) (trace (the_world r)))
       \<and> (0 < remaining_attempts \<longrightarrow>
            capture_loop pb x remaining_attempts filenames w
              = Return (filenames[nat x := File filename]) (the_world r))"
proof -
  from attempt_success [OF ok inr, of pb remaining_attempts]
  obtain w' where a: "r = Return (0, filenames[nat x := File filename]) w'"
    and c: "clock_ix w' = clock_ix w + 2"
    and t: "trace w' = trace w @ smile_actions x @ pad_actions toc"
    unfolding r_def toc_def by blast
  have p: "pad_actions toc = (if toc < 1 then [Sleep (1 - toc)] else [])"
    by (simp add: pad_actions_def)
  have d: "drop (length (trace w @ smile_actions x)) (trace w') = pad_actions toc"
    unfolding t by simp
  have s: "1 \<le> toc + slept (pad_actions toc)"
    by (simp add: pad_actions_def slept_def)
  have l: "capture_loop pb x remaining_attempts filenames w
              = Return (filenames[nat x := File filename]) w'" if "0 < remaining_attempts"
    using capture_loop_step [OF that a [unfolded r_def]] by (simp add: capture_loop_done)
  show ?thesis
    unfolding a using c t p d s l by simp
qed

lemma loop_success:
  assumes "captures w (capture_ix w) = Inr f" "0 < r" "0 \<le> x" "x < int (length fns)"
  shows "\<exists>w'. capture_loop pb x r fns w = Return (fns[nat x := File f]) w'
       \<and> capture_ix w' = capture_ix w + 1
       \<and> trace w' = trace w @ smile_actions x
            @ pad_actions (clock w (clock_ix w + 1) - clock w (clock_ix w))"
proof -
  from attempt_success [OF assms(1,3,4), of pb r] obtain w' where
    a: "capture_attempt pb x r fns w = Return (0, fns[nat x := File f]) w'"
    and b: "capture_ix w' = capture_ix w + 1"
      "trace w' = trace w @ smile_actions x
            @ pad_actions (clock w (clock_ix w + 1) - clock w (clock_ix w))"
    by blast
  have "capture_loop pb x r fns w = Return (fns[nat x := File f]) w'"
    using capture_loop_step [OF assms(2) a] by (simp add: capture_loop_done)
  then show ?thesis using b by blast
qed

lemma loop_retry:
  assumes "captures w (capture_ix w) = Inl (CameraException m True)" "1 < r"
  shows "\<exists>w'. capture_loop pb x r fns w = capture_loop pb x (r - 1) fns w'
       \<and> clock w' = clock w \<and> captures w' = captures w
       \<and> clock_ix w' = clock_ix w + 2 \<and> capture_ix w' = capture_ix w + 1
       \<and> trace w' = trace w @ smile_actions x @ retry_actions m
            @ pad_actions (clock w (clock_ix w + 1) - clock w (clock_ix w))"
proof -
  from attempt_retry [OF assms, of pb x fns] obtain w' where
    a: "capture_attempt pb x r fns w = Return (r - 1, fns) w'"
    and b: "clock w' = clock w" "captures w' = captures w"
      "clock_ix w' = clock_ix w + 2" "capture_ix w' = capture_ix w + 1"
      "trace w' = trace w @ smile_actions x @ retry_actions m
            @ pad_actions (clock w (clock_ix w + 1) - clock w (clock_ix w))"
    by blast
  have "0 < r" using assms(2) by simp
  from capture_loop_step [OF this a] show ?thesis using b by blast
qed

lemma loop_give_up:
  assumes "captures w (capture_ix w) = Inl (CameraException m True)"
  shows "\<exists>w'. capture_loop pb x 1 fns w
           = Raise (CameraException ''Giving up! Please start over!'' False) w'
       \<and> capture_ix w' = capture_ix w + 1
       \<and> trace w' = trace w @ smile_actions x"
proof -
  from attempt_give_up [OF assms, of 1 pb x fns] obtain w' where
    a: "capture_attempt pb x 1 fns w
          = Raise (CameraException ''Giving up! Please start over!'' False) w'"
    and b: "capture_ix w' = capture_ix w + 1" "trace w' = trace w @ smile_actions x"
    by auto
  from capture_loop_raise [OF _ a] show ?thesis using b by simp
qed

lemma loop_raise:
  assumes "captures w (capture_ix w) = Inl e" "\<forall>m. e \<noteq> CameraException m True" "0 < r"
  shows "\<exists>w'. capture_loop pb x r fns w = Raise e w'
       \<and> capture_ix w' = capture_ix w + 1
       \<and> trace w' = trace w @ smile_actions x"
proof -
  from attempt_raise [OF assms(1,2), of pb x r fns] obtain w' where
    a: "capture_attempt pb x r fns w = Raise e w'"
    and b: "capture_ix w' = capture_ix w + 1" "trace w' = trace w @ smile_actions x"
    by auto
  from capture_loop_raise [OF assms(3) a] show ?thesis using b by simp
qed

lemma attempt_capture_ix:
  "capture_ix (the_world (capture_attempt pb x r fns w)) = capture_ix w + 1"
proof (cases "captures w (capture_ix w)")
  case (Inr f)
  then show ?thesis
    by (simp add: capture_attempt_def prim_defs pad_sleep_eq Let_def split: sum.splits)
next
  case (Inl e)
  show ?thesis
  proof (cases "\<exists>m. e = CameraException m True")
    case False
    with attempt_raise [OF Inl, of pb x r fns] show ?thesis by auto
  next
    case True
    then obtain m where m: "captures w (capture_ix w) = Inl (CameraException m True)"
      using Inl by auto
    show ?thesis
    proof (cases "1 < r")
      case True
      from attempt_retry [OF m True, of pb x fns] show ?thesis by auto
    next
      case False
      then have "r \<le> 1" by simp
      from attempt_give_up [OF m this, of pb x fns] show ?thesis by auto
    qed
  qed
qed

lemma attempt_remaining:
  "capture_attempt pb x r fns w = Return (r', fns') w' \<Longrightarrow> r' = 0 \<or> r' = r - 1"
  unfolding capture_attempt_def Let_def
  by (auto split: prod.splits result.splits exn.splits sum.splits if_splits)

lemma loop_capture_ix:
  "0 \<le> r \<Longrightarrow> capture_ix (the_world (capture_loop pb x r fns w)) \<le> capture_ix w + nat r"
proof (induction pb x r fns w rule: capture_loop.induct)
  case (1 pb x r fns w)
  show ?case
  proof (cases "0 < r")
    case False
    then show ?thesis by (subst capture_loop.simps) simp
  next
    case True
    note ix = attempt_capture_ix [of pb x r fns w]
    show ?thesis
    proof (cases "capture_attempt pb x r fns w")
      case (Return v w')
      obtain r' fns' where v: "v = (r', fns')" by (cases v)
      have r': "r' = 0 \<or> r' = r - 1" using attempt_remaining Return v by blast
      then have nn: "0 \<le> r'" using True by auto
      have "capture_ix (the_world (capture_loop pb x r' fns' w')) \<le> capture_ix w' + nat r'"
        using "1.IH" [OF True Return v [symmetric] nn] .
      moreover have "capture_ix w' = capture_ix w + 1" using ix Return by simp
      moreover have "nat r' + 1 \<le> nat r" using r' True by auto
      moreover have "capture_loop pb x r fns w = capture_loop pb x r' fns' w'"
        using capture_loop_step [OF True] Return v by simp
      ultimately show ?thesis by simp
    next
      case (Raise e w')
      then have "capture_loop pb x r fns w = Raise e w'" using capture_loop_raise [OF True] by simp
      then show ?thesis using ix Raise True by simp
    next
      case (Unfinished w')
      then have "capture_loop pb x r fns w = Unfinished w'"
        using True by (subst capture_loop.simps) simp
      then show ?thesis using ix Unfinished True by simp
    qed
  qed
qed

lemma loop_capture_ix_lower:
  "capture_ix w + (if 0 < r then 1 else 0) \<le> capture_ix (the_world (capture_loop pb x r fns w))"
proof (induction pb x r fns w rule: capture_loop.induct)
  case (1 pb x r fns w)
  show ?case
  proof (cases "0 < r")
    case False
    then show ?thesis by (subst capture_loop.simps) simp
  next
    case True
    note ix = attempt_capture_ix [of pb x r fns w]
    show ?thesis
    proof (cases "capture_attempt pb x r fns w")
      case (Return v w')
      obtain r' fns' where v: "v = (r', fns')" by (cases v)
      have "capture_ix w' + (if 0 < r' then 1 else 0)
              \<le> capture_ix (the_world (capture_loop pb x r' fns' w'))"
        using "1.IH" [OF True Return v [symmetric]] .
      moreover have "capture_ix w' = capture_ix w + 1" using ix Return by simp
      moreover have "capture_loop pb x r fns w = capture_loop pb x r' fns' w'"
        using capture_loop_step [OF True] Return v by simp
      ultimately show ?thesis using True by simp
    next
      case (Raise e w')
      then have "capture_loop pb x r fns w = Raise e w'" using capture_loop_raise [OF True] by simp
      then show ?thesis using ix Raise True by simp
    next
      case (Unfinished w')
      then have "capture_loop pb x r fns w = Unfinished w'"
        using True by (subst capture_loop.simps) simp
      then show ?thesis using ix Unfinished True by simp
    qed
  qed
qed

lemma take_shots_proceed:
  "show_counter pb n (pose_time pb) w = Return u w1 \<Longrightarrow>
   capture_loop pb x 3 fns w1 = Return fns' w2 \<Longrightarrow>
   take_shots pb n (x # xs) fns w = take_shots pb n xs fns' w2"
  by simp

lemma take_shots_abort:
  "show_counter pb n (pose_time pb) w = Return u w1 \<Longrightarrow>
   capture_loop pb x 3 fns w1 = Raise e w2 \<Longrightarrow>
   take_shots pb n (x # xs) fns w = Raise e w2"
  by simp

lemma take_picture_abort:
  "take_shots pb n [0..3] (map Unset [0..3])
     (sleep pb 2 (display_apply (show_message ''POSE!\<newline>\<newline>Four pictures...''
        (display_clear None (set_output (lamp_channel pb) 0 w))))) = Raise e w' \<Longrightarrow>
   take_picture pb n w = Raise e w'"
  by (simp add: take_picture_def Let_def)

text \<open>
  Claim C1. The retry loop of one picture calls the camera at least once and at most 3
  times. A success on the first, second or third attempt ends the loop with the filename
  stored; before each retry the error message of the recoverable failure is shown and 5
  seconds are slept. Three recoverable failures raise the non-recoverable
  \<open>CameraException\<close> "Giving up! Please start over!" after the third attempt. A
  non-recoverable failure on any attempt raises the original exception at once, with no
  further camera call. When the loop returns, the session goes on with the next picture;
  when it raises, the loop over the pictures and \<open>take_picture\<close> raise the same exception.
\<close>

theorem capture_retry_policy:
  fixes pb :: photobooth and w w0 :: world and x :: int and filenames :: "slot list"
    and n :: nat and xs :: "int list"
  assumes inr: "0 \<le> x" "x < int (length filenames)"
  defines "r \<equiv> capture_loop pb x 3 filenames w"
  defines "c \<equiv> (\<lambda>k. clock w (clock_ix w + k))"
  defines "out \<equiv> (\<lambda>k. captures w (capture_ix w + k))"
  defines "give_up \<equiv> CameraException ''Giving up! Please start over!'' False"
  shows "capture_ix w < capture_ix (the_world r) \<and> capture_ix (the_world r) \<le> capture_ix w + 3
     \<and> (out 0 = Inr f \<longrightarrow>
          returned r = Some (filenames[nat x := File f])
          \<and> capture_ix (the_world r) = capture_ix w + 1
          \<and> trace (the_world r) = trace w @ smile_actions x @ pad_actions (c 1 - c 0))
     \<and> (out 0 = Inl (CameraException ma True) \<and> out 1 = Inr f \<longrightarrow>
          returned r = Some (filenames[nat x := File f])
          \<and> capture_ix (the_world r) = capture_ix w + 2
          \<and> trace (the_world r) =
              trace w @ smile_actions x @ retry_actions ma @ pad_actions (c 1 - c 0)
                @ smile_actions x @ pad_actions (c 3 - c 2))
     \<and> (out 0 = Inl (CameraException ma True) \<and> out 1 = Inl (CameraException mb True)
          \<and> out 2 = Inr f \<longrightarrow>
          returned r = Some (filenames[nat x := File f])
          \<and> capture_ix (the_world r) = capture_ix w + 3
          \<and> trace (the_world r) =
              trace w @ smile_actions x @ retry_actions ma @ pad_actions (c 1 - c 0)
                @ smile_actions x @ retry_actions mb @ pad_actions (c 3 - c 2)
                @ smile_actions x @ pad_actions (c 5 - c 4))
     \<and> (out 0 = Inl (CameraException ma True) \<and> out 1 = Inl (CameraException mb True)
          \<and> out 2 = Inl (CameraException mc True) \<longrightarrow>
          raised r = Some give_up
          \<and> capture_ix (the_world r) = capture_ix w + 3
          \<and> trace (the_world r) =
              trace w @ smile_actions x @ retry_actions ma @ pad_actions (c 1 - c 0)
                @ smile_actions x @ retry_actions mb @ pad_actions (c 3 - c 2)
                @ smile_actions x)
     \<and> (out 0 = Inl (CameraException ma False) \<longrightarrow>
          raised r = Some (CameraException ma False)
          \<and> capture_ix (the_world r) = capture_ix w + 1
          \<and> trace (the_world r) = trace w @ smile_actions x)
     \<and> (out 0 = Inl (CameraException ma True) \<and> out 1 = Inl (CameraException mb False) \<longrightarrow>
          raised r = Some (CameraException mb False)
          \<and> capture_ix (the_world r) = capture_ix w + 2
          \<and> trace (the_world r) =
              trace w @ smile_actions x @ retry_actions ma @ pad_actions (c 1 - c 0)
                @ smile_actions x)
     \<and> (out 0 = Inl (CameraException ma True) \<and> out 1 = Inl (CameraException mb True)
          \<and> out 2 = Inl (CameraException mc False) \<longrightarrow>
          raised r = Some (CameraException mc False)
          \<and> capture_ix (the_world r) = capture_ix w + 3
          \<and> trace (the_world r) =
              trace w @ smile_actions x @ retry_actions ma @ pad_actions (c 1 - c 0)
                @ smile_actions x @ retry_actions mb @ pad_actions (c 3 - c 2)
                @ smile_actions x)
     \<and> (show_counter pb n (pose_time pb) w0 = Return () w \<longrightarrow>
          (case r of
             Return filenames' w' \<Rightarrow>
               take_shots pb n (x # xs) filenames w0 = take_shots pb n xs filenames' w'
           | Raise e w' \<Rightarrow>
               take_shots pb n (x # xs) filenames w0 = Raise e w'
           | Unfinished w' \<Rightarrow> True))
     \<and> (case take_shots pb n [0..3] (map Unset [0..3])
                (sleep pb 2 (display_apply (show_message ''POSE!\<newline>\<newline>Four pictures...''
                   (display_clear None (set_output (lamp_channel pb) 0 w0))))) of
           Raise e w' \<Rightarrow> take_picture pb n w0 = Raise e w'
         | _ \<Rightarrow> True)"
proof -
  have bounds: "capture_ix w < capture_ix (the_world r) \<and> capture_ix (the_world r) \<le> capture_ix w + 3"
    using loop_capture_ix [of 3 pb x filenames w] loop_capture_ix_lower [of w 3 pb x filenames]
    by (simp add: r_def)
  have s1: "returned r = Some (filenames[nat x := File f])
          \<and> capture_ix (the_world r) = capture_ix w + 1
          \<and> trace (the_world r) = trace w @ smile_actions x @ pad_actions (c 1 - c 0)"
    if "out 0 = Inr f"
  proof -
    from that have "captures w (capture_ix w) = Inr f" by (simp add: out_def)
    from loop_success [OF this _ inr, of 3 pb] show ?thesis
      by (auto simp: r_def c_def)
  qed
  have retry1: "\<exists>w1. r = capture_loop pb x 2 filenames w1
       \<and> clock w1 = clock w \<and> captures w1 = captures w
       \<and> clock_ix w1 = clock_ix w + 2 \<and> capture_ix w1 = capture_ix w + 1
       \<and> trace w1 = trace w @ smile_actions x @ retry_actions ma @ pad_actions (c 1 - c 0)"
    if "out 0 = Inl (CameraException ma True)" for ma
  proof -
    from that have "captures w (capture_ix w) = Inl (CameraException ma True)" by (simp add: out_def)
    from loop_retry [OF this, of 3 pb x filenames] show ?thesis
      by (auto simp: r_def c_def)
  qed
  have retry2: "\<exists>w2. r = capture_loop pb x 1 filenames w2
       \<and> clock w2 = clock w \<and> captures w2 = captures w
       \<and> clock_ix w2 = clock_ix w + 4 \<and> capture_ix w2 = capture_ix w + 2
       \<and> trace w2 = trace w @ smile_actions x @ retry_actions ma @ pad_actions (c 1 - c 0)
            @ smile_actions x @ retry_actions mb @ pad_actions (c 3 - c 2)"
    if "out 0 = Inl (CameraException ma True)" "out 1 = Inl (CameraException mb True)" for ma mb
  proof -
    from retry1 [OF that(1)] obtain w1 where w1: "r = capture_loop pb x 2 filenames w1"
      "clock w1 = clock w" "captures w1 = captures w"
      "clock_ix w1 = clock_ix w + 2" "capture_ix w1 = capture_ix w + 1"
      "trace w1 = trace w @ smile_actions x @ retry_actions ma @ pad_actions (c 1 - c 0)"
      by blast
    have "captures w1 (capture_ix w1) = Inl (CameraException mb True)"
      using that(2) w1 by (simp add: out_def)
    from loop_retry [OF this, of 2 pb x filenames] show ?thesis
      using w1 by (auto simp: c_def eval_nat_numeral)
  qed
  have s2: "returned r = Some (filenames[nat x := File f])
          \<and> capture_ix (the_world r) = capture_ix w + 2
          \<and> trace (the_world r) =
              trace w @ smile_actions x @ retry_actions ma @ pad_actions (c 1 - c 0)
                @ smile_actions x @ pad_actions (c 3 - c 2)"
    if "out 0 = Inl (CameraException ma True)" "out 1 = Inr f"
  proof -
    from retry1 [OF that(1)] obtain w1 where w1: "r = capture_loop pb x 2 filenames w1"
      "clock w1 = clock w" "captures w1 = captures w"
      "clock_ix w1 = clock_ix w + 2" "capture_ix w1 = capture_ix w + 1"
      "trace w1 = trace w @ smile_actions x @ retry_actions ma @ pad_actions (c 1 - c 0)"
      by blast
    have "captures w1 (capture_ix w1) = Inr f" using that(2) w1 by (simp add: out_def)
    from loop_success [OF this _ inr, of 2 pb] show ?thesis
      using w1 by (auto simp: c_def eval_nat_numeral)
  qed
  have s3: "returned r = Some (filenames[nat x := File f])
          \<and> capture_ix (the_world r) = capture_ix w + 3
          \<and> trace (the_world r) =
              trace w @ smile_actions x @ retry_actions ma @ pad_actions (c 1 - c 0)
                @ smile_actions x @ retry_actions mb @ pad_actions (c 3 - c 2)
                @ smile_actions x @ pad_actions (c 5 - c 4)"
    if "out 0 = Inl (CameraException ma True)" "out 1 = Inl (CameraException mb True)" "out 2 = Inr f"
  proof -
    from retry2 [OF that(1,2)] obtain w2 where w2: "r = capture_loop pb x 1 filenames w2"
      "clock w2 = clock w" "captures w2 = captures w"
      "clock_ix w2 = clock_ix w + 4" "capture_ix w2 = capture_ix w + 2"
      "trace w2 = trace w @ smile_actions x @ retry_actions ma @ pad_actions (c 1 - c 0)
            @ smile_actions x @ retry_actions mb @ pad_actions (c 3 - c 2)"
      by blast
    have "captures w2 (capture_ix w2) = Inr f" using that(3) w2 by (simp add: out_def)
    from loop_success [OF this _ inr, of 1 pb] show ?thesis
      using w2 by (auto simp: c_def eval_nat_numeral)
  qed
  have g3: "raised r = Some give_up
          \<and> capture_ix (the_world r) = capture_ix w + 3
          \<and> trace (the_world r) =
              trace w @ smile_actions x @ retry_actions ma @ pad_actions (c 1 - c 0)
                @ smile_actions x @ retry_actions mb @ pad_actions (c 3 - c 2)
                @ smile_actions x"
    if "out 0 = Inl (CameraException ma True)" "out 1 = Inl (CameraException mb True)"
      "out 2 = Inl (CameraException mc True)"
  proof -
    from retry2 [OF that(1,2)] obtain w2 where w2: "r = capture_loop pb x 1 filenames w2"
      "clock w2 = clock w" "captures w2 = captures w"
      "clock_ix w2 = clock_ix w + 4" "capture_ix w2 = capture_ix w + 2"
      "trace w2 = trace w @ smile_actions x @ retry_actions ma @ pad_actions (c 1 - c 0)
            @ smile_actions x @ retry_actions mb @ pad_actions (c 3 - c 2)"
      by blast
    have "captures w2 (capture_ix w2) = Inl (CameraException mc True)"
      using that(3) w2 by (simp add: out_def)
    from loop_give_up [OF this, of pb x filenames] show ?thesis
      using w2 by (auto simp: give_up_def eval_nat_numeral)
  qed
  have n1: "raised r = Some (CameraException ma False)
          \<and> capture_ix (the_world r) = capture_ix w + 1
          \<and> trace (the_world r) = trace w @ smile_actions x"
    if "out 0 = Inl (CameraException ma False)"
  proof -
    from that have "captures w (capture_ix w) = Inl (CameraException ma False)" by (simp add: out_def)
    from loop_raise [OF this, of 3 pb x filenames] show ?thesis
      by (auto simp: r_def)
  qed
  have n2: "raised r = Some (CameraException mb False)
          \<and> capture_ix (the_world r) = capture_ix w + 2
          \<and> trace (the_world r) =
              trace w @ smile_actions x @ retry_actions ma @ pad_actions (c 1 - c 0)
                @ smile_actions x"
    if "out 0 = Inl (CameraException ma True)" "out 1 = Inl (CameraException mb False)"
  proof -
    from retry1 [OF that(1)] obtain w1 where w1: "r = capture_loop pb x 2 filenames w1"
      "clock w1 = clock w" "captures w1 = captures w"
      "clock_ix w1 = clock_ix w + 2" "capture_ix w1 = capture_ix w + 1"
      "trace w1 = trace w @ smile_actions x @ retry_actions ma @ pad_actions (c 1 - c 0)"
      by blast
    have "captures w1 (capture_ix w1) = Inl (CameraException mb False)"
      using that(2) w1 by (simp add: out_def)
    from loop_raise [OF this, of 2 pb x filenames] show ?thesis
      using w1 by (auto simp: eval_nat_numeral)
  qed
  have n3: "raised r = Some (CameraException mc False)
          \<and> capture_ix (the_world r) = capture_ix w + 3
          \<and> trace (the_world r) =
              trace w @ smile_actions x @ retry_actions ma @ pad_actions (c 1 - c 0)
                @ smile_actions x @ retry_actions mb @ pad_actions (c 3 - c 2)
                @ smile_actions x"
    if "out 0 = Inl (CameraException ma True)" "out 1 = Inl (CameraException mb True)"
      "out 2 = Inl (CameraException mc False)"
  proof -
    from retry2 [OF that(1,2)] obtain w2 where w2: "r = capture_loop pb x 1 filenames w2"
      "clock w2 = clock w" "captures w2 = captures w"
      "clock_ix w2 = clock_ix w + 4" "capture_ix w2 = capture_ix w + 2"
      "trace w2 = trace w @ smile_actions x @ retry_actions ma @ pad_actions (c 1 - c 0)
            @ smile_actions x @ retry_actions mb @ pad_actions (c 3 - c 2)"
      by blast
    have "captures w2 (capture_ix w2) = Inl (CameraException mc False)"
      using that(3) w2 by (simp add: out_def)
    from loop_raise [OF this, of 1 pb x filenames] show ?thesis
      using w2 by (auto simp: eval_nat_numeral)
  qed
  have sess: "case r of
             Return filenames' w' \<Rightarrow>
               take_shots pb n (x # xs) filenames w0 = take_shots pb n xs filenames' w'
           | Raise e w' \<Rightarrow>
               take_shots pb n (x # xs) filenames w0 = Raise e w'
           | Unfinished w' \<Rightarrow> True"
    if "show_counter pb n (pose_time pb) w0 = Return () w"
    using that by (cases r) (simp_all add: r_def)
  have pic: "case take_shots pb n [0..3] (map Unset [0..3])
                (sleep pb 2 (display_apply (show_message ''POSE!\<newline>\<newline>Four pictures...''
                   (display_clear None (set_output (lamp_channel pb) 0 w0))))) of
           Raise e w' \<Rightarrow> take_picture pb n w0 = Raise e w'
         | _ \<Rightarrow> True"
    by (simp add: take_picture_def Let_def split: result.splits)
  show ?thesis
    using bounds s1 s2 s3 g3 n1 n2 n3 sess pic by blast
qed

text \<open>Claim C1 on the seven courses of a picture: success, recoverable and fatal failures.\<close>

theorem capture_retry_policy_witness:
  "(0::int) \<le> 0 \<and> (0::int) < int (length (map Unset [0..3]))
   \<and> captures (demo_world [Inr ''one.jpg''] []) (capture_ix (demo_world [Inr ''one.jpg''] []) + 0) = Inr ''one.jpg''
   \<and> returned (capture_loop demo_booth 0 3 (map Unset [0..3]) (demo_world [Inr ''one.jpg''] [])) = Some ((map Unset [0..3])[nat 0 := File ''one.jpg''])
   \<and> capture_ix (the_world (capture_loop demo_booth 0 3 (map Unset [0..3]) (demo_world [Inr ''one.jpg''] []))) = capture_ix (demo_world [Inr ''one.jpg''] []) + 1
   \<and> captures (demo_world [Inl (CameraException ''busy'' True), Inr ''two.jpg''] []) (capture_ix (demo_world [Inl (CameraException ''busy'' True), Inr ''two.jpg''] []) + 0) = Inl (CameraException ''busy'' True)
   \<and> captures (demo_world [Inl (CameraException ''busy'' True), Inr ''two.jpg''] []) (capture_ix (demo_world [Inl (CameraException ''busy'' True), Inr ''two.jpg''] []) + 1) = Inr ''two.jpg''
   \<and> returned (capture_loop demo_booth 0 3 (map Unset [0..3]) (demo_world [Inl (CameraException ''busy'' True), Inr ''two.jpg''] [])) = Some ((map Unset [0..3])[nat 0 := File ''two.jpg''])
   \<and> capture_ix (the_world (capture_loop demo_booth 0 3 (map Unset [0..3]) (demo_world [Inl (CameraException ''busy'' True), Inr ''two.jpg''] []))) = capture_ix (demo_world [Inl (CameraException ''busy'' True), Inr ''two.jpg''] []) + 2
   \<and> captures (demo_world [Inl (CameraException ''busy'' True), Inl (CameraException ''busy again'' True), Inr ''three.jpg''] []) (capture_ix (demo_world [Inl (CameraException ''busy'' True), Inl (CameraException ''busy again'' True), Inr ''three.jpg''] []) + 0) = Inl (CameraException ''busy'' True)
   \<and> captures (demo_world [Inl (CameraException ''busy'' True), Inl (CameraException ''busy again'' True), Inr ''three.jpg''] []) (capture_ix (demo_world [Inl (CameraException ''busy'' True), Inl (CameraException ''busy again'' True), Inr ''three.jpg''] []) + 1) = Inl (CameraException ''busy again'' True)
   \<and> captures (demo_world [Inl (CameraException ''busy'' True), Inl (CameraException ''busy again'' True), Inr ''three.jpg''] []) (capture_ix (demo_world [Inl (CameraException ''busy'' True), Inl (CameraException ''busy again'' True), Inr ''three.jpg''] []) + 2) = Inr ''three.jpg''
   \<and> returned (capture_loop demo_booth 0 3 (map Unset [0..3]) (demo_world [Inl (CameraException ''busy'' True), Inl (CameraException ''busy again'' True), Inr ''three.jpg''] [])) = Some ((map Unset [0..3])[nat 0 := File ''three.jpg''])
   \<and> capture_ix (the_world (capture_loop demo_booth 0 3 (map Unset [0..3]) (demo_world [Inl (CameraException ''busy'' True), Inl (CameraException ''busy again'' True), Inr ''three.jpg''] []))) = capture_ix (demo_world [Inl (CameraException ''busy'' True), Inl (CameraException ''busy again'' True), Inr ''three.jpg''] []) + 3
   \<and> captures (demo_world [Inl (CameraException ''busy'' True), Inl (CameraException ''busy again'' True), Inl (CameraException ''still busy'' True)] []) (capture_ix (demo_world [Inl (CameraException ''busy'' True), Inl (CameraException ''busy again'' True), Inl (CameraException ''still busy'' True)] []) + 0) = Inl (CameraException ''busy'' True)
   \<and> captures (demo_world [Inl (CameraException ''busy'' True), Inl (CameraException ''busy again'' True), Inl (CameraException ''still busy'' True)] []) (capture_ix (demo_world [Inl (CameraException ''busy'' True), Inl (CameraException ''busy again'' True), Inl (CameraException ''still busy'' True)] []) + 1) = Inl (CameraException ''busy again'' True)
   \<and> captures (demo_world [Inl (CameraException ''busy'' True), Inl (CameraException ''busy again'' True), Inl (CameraException ''still busy'' True)] []) (capture_ix (demo_world [Inl (CameraException ''busy'' True), Inl (CameraException ''busy again'' True), Inl (CameraException ''still busy'' True)] []) + 2) = Inl (CameraException ''still busy'' True)
   \<and> raised (capture_loop demo_booth 0 3 (map Unset [0..3]) (demo_world [Inl (CameraException ''busy'' True), Inl (CameraException ''busy again'' True), Inl (CameraException ''still busy'' True)] [])) = Some (CameraException ''Giving up! Please start over!'' False)
   \<and> capture_ix (the_world (capture_loop demo_booth 0 3 (map Unset [0..3]) (demo_world [Inl (CameraException ''busy'' True), Inl (CameraException ''busy again'' True), Inl (CameraException ''still busy'' True)] []))) = capture_ix (demo_world [Inl (CameraException ''busy'' True), Inl (CameraException ''busy again'' True), Inl (CameraException ''still busy'' True)] []) + 3
   \<and> captures (demo_world [Inl (CameraException ''gone'' False)] []) (capture_ix (demo_world [Inl (CameraException ''gone'' False)] []) + 0) = Inl (CameraException ''gone'' False)
   \<and> raised (capture_loop demo_booth 0 3 (map Unset [0..3]) (demo_world [Inl (CameraException ''gone'' False)] [])) = Some (CameraException ''gone'' False)
   \<and> capture_ix (the_world (capture_loop demo_booth 0 3 (map Unset [0..3]) (demo_world [Inl (CameraException ''gone'' False)] []))) = capture_ix (demo_world [Inl (CameraException ''gone'' False)] []) + 1
   \<and> captures (demo_world [Inl (CameraException ''busy'' True), Inl (CameraException ''gone'' False)] []) (capture_ix (demo_world [Inl (CameraException ''busy'' True), Inl (CameraException ''gone'' False)] []) + 0) = Inl (CameraException ''busy'' True)
   \<and> captures (demo_world [Inl (CameraException ''busy'' True), Inl (CameraException ''gone'' False)] []) (capture_ix (demo_world [Inl (CameraException ''busy'' True), Inl (CameraException ''gone'' False)] []) + 1) = Inl (CameraException ''gone'' False)
   \<and> raised (capture_loop demo_booth 0 3 (map Unset [0..3]) (demo_world [Inl (CameraException ''busy'' True), Inl (CameraException ''gone'' False)] [])) = Some (CameraException ''gone'' False)
   \<and> capture_ix (the_world (capture_loop demo_booth 0 3 (map Unset [0..3]) (demo_world [Inl (CameraException ''busy'' True), Inl (CameraException ''gone'' False)] []))) = capture_ix (demo_world [Inl (CameraException ''busy'' True), Inl (CameraException ''gone'' False)] []) + 2
   \<and> captures (demo_world [Inl (CameraException ''busy'' True), Inl (CameraException ''busy again'' True), Inl (CameraException ''gone'' False)] []) (capture_ix (demo_world [Inl (CameraException ''busy'' True), Inl (CameraException ''busy again'' True), Inl (CameraException ''gone'' False)] []) + 0) = Inl (CameraException ''busy'' True)
   \<and> captures (demo_world [Inl (CameraException ''busy'' True), Inl (CameraException ''busy again'' True), Inl (CameraException ''gone'' False)] []) (capture_ix (demo_world [Inl (CameraException ''busy'' True), Inl (CameraException ''busy again'' True), Inl (CameraException ''gone'' False)] []) + 1) = Inl (CameraException ''busy again'' True)
   \<and> captures (demo_world [Inl (CameraException ''busy'' True), Inl (CameraException ''busy again'' True), Inl (CameraException ''gone'' False)] []) (capture_ix (demo_world [Inl (CameraException ''busy'' True), Inl (CameraException ''busy again'' True), Inl (CameraException ''gone'' False)] []) + 2) = Inl (CameraException ''gone'' False)
   \<and> raised (capture_loop demo_booth 0 3 (map Unset [0..3]) (demo_world [Inl (CameraException ''busy'' True), Inl (CameraException ''busy again'' True), Inl (CameraException ''gone'' False)] [])) = Some (CameraException ''gone'' False)
   \<and> capture_ix (the_world (capture_loop demo_booth 0 3 (map Unset [0..3]) (demo_world [Inl (CameraException ''busy'' True), Inl (CameraException ''busy again'' True), Inl (CameraException ''gone'' False)] []))) = capture_ix (demo_world [Inl (CameraException ''busy'' True), Inl (CameraException ''busy again'' True), Inl (CameraException ''gone'' False)] []) + 3"
proof -
  have rng: "(0::int) \<le> 0" "(0::int) < int (length (map Unset [0..3]))"
    by simp_all
  have hS: "captures (demo_world [Inr ''one.jpg''] []) (capture_ix (demo_world [Inr ''one.jpg''] []) + 0) = Inr ''one.jpg''"
    by (simp_all add: demo_world_def)
  from capture_retry_policy [where pb = demo_booth
      and x = 0
      and filenames = "map Unset [0..3]"
      and w = "demo_world [Inr ''one.jpg''] []"
      and f = "''one.jpg''",
      OF rng] hS
  have cS: "returned (capture_loop demo_booth 0 3 (map Unset [0..3]) (demo_world [Inr ''one.jpg''] [])) = Some ((map Unset [0..3])[nat 0 := File ''one.jpg''])"
    "capture_ix (the_world (capture_loop demo_booth 0 3 (map Unset [0..3]) (demo_world [Inr ''one.jpg''] []))) = capture_ix (demo_world [Inr ''one.jpg''] []) + 1"
    by blast+
  have hRS: "captures (demo_world [Inl (CameraException ''busy'' True), Inr ''two.jpg''] []) (capture_ix (demo_world [Inl (CameraException ''busy'' True), Inr ''two.jpg''] []) + 0) = Inl (CameraException ''busy'' True)" "captures (demo_world [Inl (CameraException ''busy'' True), Inr ''two.jpg''] []) (capture_ix (demo_world [Inl (CameraException ''busy'' True), Inr ''two.jpg''] []) + 1) = Inr ''two.jpg''"
    by (simp_all add: demo_world_def)
  from capture_retry_policy [where pb = demo_booth
      and x = 0
      and filenames = "map Unset [0..3]"
      and w = "demo_world [Inl (CameraException ''busy'' True), Inr ''two.jpg''] []"
      and ma = "''busy''"
      and f = "''two.jpg''",
      OF rng] hRS
  have cRS: "returned (capture_loop demo_booth 0 3 (map Unset [0..3]) (demo_world [Inl (CameraException ''busy'' True), Inr ''two.jpg''] [])) = Some ((map Unset [0..3])[nat 0 := File ''two.jpg''])"
    "capture_ix (the_world (capture_loop demo_booth 0 3 (map Unset [0..3]) (demo_world [Inl (CameraException ''busy'' True), Inr ''two.jpg''] []))) = capture_ix (demo_world [Inl (CameraException ''busy'' True), Inr ''two.jpg''] []) + 2"
    by blast+
  have hRRS: "captures (demo_world [Inl (CameraException ''busy'' True), Inl (CameraException ''busy again'' True), Inr ''three.jpg''] []) (capture_ix (demo_world [Inl (CameraException ''busy'' True), Inl (CameraException ''busy again'' True), Inr ''three.jpg''] []) + 0) = Inl (CameraException ''busy'' True)" "captures (demo_world [Inl (CameraException ''busy'' True), Inl (CameraException ''busy again'' True), Inr ''three.jpg''] []) (capture_ix (demo_world [Inl (CameraException ''busy'' True), Inl (CameraException ''busy again'' True), Inr ''three.jpg''] []) + 1) = Inl (CameraException ''busy again'' True)" "captures (demo_world [Inl (CameraException ''busy'' True), Inl (CameraException ''busy again'' True), Inr ''three.jpg''] []) (capture_ix (demo_world [Inl (CameraException ''busy'' True), Inl (CameraException ''busy again'' True), Inr ''three.jpg''] []) + 2) = Inr ''three.jpg''"
    by (simp_all add: demo_world_def)
  from capture_retry_policy [where pb = demo_booth
      and x = 0
      and filenames = "map Unset [0..3]"
      and w = "demo_world [Inl (CameraException ''busy'' True), Inl (CameraException ''busy again'' True), Inr ''three.jpg''] []"
      and ma = "''busy''"
      and mb = "''busy again''"
      and f = "''three.jpg''",
      OF rng] hRRS
  have cRRS: "returned (capture_loop demo_booth 0 3 (map Unset [0..3]) (demo_world [Inl (CameraException ''busy'' True), Inl (CameraException ''busy again'' True), Inr ''three.jpg''] [])) = Some ((map Unset [0..3])[nat 0 := File ''three.jpg''])"
    "capture_ix (the_world (capture_loop demo_booth 0 3 (map Unset [0..3]) (demo_world [Inl (CameraException ''busy'' True), Inl (CameraException ''busy again'' True), Inr ''three.jpg''] []))) = capture_ix (demo_world [Inl (CameraException ''busy'' True), Inl (CameraException ''busy again'' True), Inr ''three.jpg''] []) + 3"
    by blast+
  have hRRR: "captures (demo_world [Inl (CameraException ''busy'' True), Inl (CameraException ''busy again'' True), Inl (CameraException ''still busy'' True)] []) (capture_ix (demo_world [Inl (CameraException ''busy'' True), Inl (CameraException ''busy again'' True), Inl (CameraException ''still busy'' True)] []) + 0) = Inl (CameraException ''busy'' True)" "captures (demo_world [Inl (CameraException ''busy'' True), Inl (CameraException ''busy again'' True), Inl (CameraException ''still busy'' True)] []) (capture_ix (demo_world [Inl (CameraException ''busy'' True), Inl (CameraException ''busy again'' True), Inl (CameraException ''still busy'' True)] []) + 1) = Inl (CameraException ''busy again'' True)" "captures (demo_world [Inl (CameraException ''busy'' True), Inl (CameraException ''busy again'' True), Inl (CameraException ''still busy'' True)] []) (capture_ix (demo_world [Inl (CameraException ''busy'' True), Inl (CameraException ''busy again'' True), Inl (CameraException ''still busy'' True)] []) + 2) = Inl (CameraException ''still busy'' True)"
    by (simp_all add: demo_world_def)
  from capture_retry_policy [where pb = demo_booth
      and x = 0
      and filenames = "map Unset [0..3]"
      and w = "demo_world [Inl (CameraException ''busy'' True), Inl (CameraException ''busy again'' True), Inl (CameraException ''still busy'' True)] []"
      and ma = "''busy''"
      and mb = "''busy again''"
      and mc = "''still busy''",
      OF rng] hRRR
  have cRRR: "raised (capture_loop demo_booth 0 3 (map Unset [0..3]) (demo_world [Inl (CameraException ''busy'' True), Inl (CameraException ''busy again'' True), Inl (CameraException ''still busy'' True)] [])) = Some (CameraException ''Giving up! Please start over!'' False)"
    "capture_ix (the_world (capture_loop demo_booth 0 3 (map Unset [0..3]) (demo_world [Inl (CameraException ''busy'' True), Inl (CameraException ''busy again'' True), Inl (CameraException ''still busy'' True)] []))) = capture_ix (demo_world [Inl (CameraException ''busy'' True), Inl (CameraException ''busy again'' True), Inl (CameraException ''still busy'' True)] []) + 3"
    by blast+
  have hN: "captures (demo_world [Inl (CameraException ''gone'' False)] []) (capture_ix (demo_world [Inl (CameraException ''gone'' False)] []) + 0) = Inl (CameraException ''gone'' False)"
    by (simp_all add: demo_world_def)
  from capture_retry_policy [where pb = demo_booth
      and x = 0
      and filenames = "map Unset [0..3]"
      and w = "demo_world [Inl (CameraException ''gone'' False)] []"
      and ma = "''gone''",
      OF rng] hN
  have cN: "raised (capture_loop demo_booth 0 3 (map Unset [0..3]) (demo_world [Inl (CameraException ''gone'' False)] [])) = Some (CameraException ''gone'' False)"
    "capture_ix (the_world (capture_loop demo_booth 0 3 (map Unset [0..3]) (demo_world [Inl (CameraException ''gone'' False)] []))) = capture_ix (demo_world [Inl (CameraException ''gone'' False)] []) + 1"
    by blast+
  have hRN: "captures (demo_world [Inl (CameraException ''busy'' True), Inl (CameraException ''gone'' False)] []) (capture_ix (demo_world [Inl (CameraException ''busy'' True), Inl (CameraException ''gone'' False)] []) + 0) = Inl (CameraException ''busy'' True)" "captures (demo_world [Inl (CameraException ''busy'' True), Inl (CameraException ''gone'' False)] []) (capture_ix (demo_world [Inl (CameraException ''busy'' True), Inl (CameraException ''gone'' False)] []) + 1) = Inl (CameraException ''gone'' False)"
    by (simp_all add: demo_world_def)
  from capture_retry_policy [where pb = demo_booth
      and x = 0
      and filenames = "map Unset [0..3]"
      and w = "demo_world [Inl (CameraException ''busy'' True), Inl (CameraException ''gone'' False)] []"
      and ma = "''busy''"
      and mb = "''gone''",
      OF rng] hRN
  have cRN: "raised (capture_loop demo_booth 0 3 (map Unset [0..3]) (demo_world [Inl (CameraException ''busy'' True), Inl (CameraException ''gone'' False)] [])) = Some (CameraException ''gone'' False)"
    "capture_ix (the_world (capture_loop demo_booth 0 3 (map Unset [0..3]) (demo_world [Inl (CameraException ''busy'' True), Inl (CameraException ''gone'' False)] []))) = capture_ix (demo_world [Inl (CameraException ''busy'' True), Inl (CameraException ''gone'' False)] []) + 2"
    by blast+
  have hRRN: "captures (demo_world [Inl (CameraException ''busy'' True), Inl (CameraException ''busy again'' True), Inl (CameraException ''gone'' False)] []) (capture_ix (demo_world [Inl (CameraException ''busy'' True), Inl (CameraException ''busy again'' True), Inl (CameraException ''gone'' False)] []) + 0) = Inl (CameraException ''busy'' True)" "captures (demo_world [Inl (CameraException ''busy'' True), Inl (CameraException ''busy again'' True), Inl (CameraException ''gone'' False)] []) (capture_ix (demo_world [Inl (CameraException ''busy'' True), Inl (CameraException ''busy again'' True), Inl (CameraException ''gone'' False)] []) + 1) = Inl (CameraException ''busy again'' True)" "captures (demo_world [Inl (CameraException ''busy'' True), Inl (CameraException ''busy again'' True), Inl (CameraException ''gone'' False)] []) (capture_ix (demo_world [Inl (CameraException ''busy'' True), Inl (CameraException ''busy again'' True), Inl (CameraException ''gone'' False)] []) + 2) = Inl (CameraException ''gone'' False)"
    by (simp_all add: demo_world_def)
  from capture_retry_policy [where pb = demo_booth
      and x = 0
      and filenames = "map Unset [0..3]"
      and w = "demo_world [Inl (CameraException ''busy'' True), Inl (CameraException ''busy again'' True), Inl (CameraException ''gone'' False)] []"
      and ma = "''busy''"
      and mb = "''busy again''"
      and mc = "''gone''",
      OF rng] hRRN
  have cRRN: "raised (capture_loop demo_booth 0 3 (map Unset [0..3]) (demo_world [Inl (CameraException ''busy'' True), Inl (CameraException ''busy again'' True), Inl (CameraException ''gone'' False)] [])) = Some (CameraException ''gone'' False)"
    "capture_ix (the_world (capture_loop demo_booth 0 3 (map Unset [0..3]) (demo_world [Inl (CameraException ''busy'' True), Inl (CameraException ''busy again'' True), Inl (CameraException ''gone'' False)] []))) = capture_ix (demo_world [Inl (CameraException ''busy'' True), Inl (CameraException ''busy again'' True), Inl (CameraException ''gone'' False)] []) + 3"
    by blast+
  show ?thesis
    using rng hS cS hRS cRS hRRS cRRS hRRR cRRR hN cN hRN cRN hRRN cRRN by (intro conjI)
qed

text \<open>Claim C8 for a capture that takes 0.2 seconds: the pad is 0.8 seconds.\<close>

theorem pad_after_successful_capture_witness:
  "(0::int) \<le> 0 \<and> (0::int) < int (length (map Unset [0..3]))
   \<and> captures (demo_world [Inr ''one.jpg''] [10, 10.2]) (capture_ix (demo_world [Inr ''one.jpg''] [10, 10.2]))
     = Inr ''one.jpg''
   \<and> trace (the_world (capture_attempt demo_booth 0 3 (map Unset [0..3])
                 (demo_world [Inr ''one.jpg''] [10, 10.2])))
       = smile_actions 0 @ [Sleep 0.8]
   \<and> capture_loop demo_booth 0 3 (map Unset [0..3]) (demo_world [Inr ''one.jpg''] [10, 10.2])
       = Return ((map Unset [0..3])[nat 0 := File ''one.jpg''])
           (the_world (capture_attempt demo_booth 0 3 (map Unset [0..3])
                 (demo_world [Inr ''one.jpg''] [10, 10.2])))"
proof -
  have h: "captures (demo_world [Inr ''one.jpg''] [10, 10.2])
             (capture_ix (demo_world [Inr ''one.jpg''] [10, 10.2])) = Inr ''one.jpg''"
    by (simp add: demo_world_def)
  have t: "clock (demo_world [Inr ''one.jpg''] [10, 10.2])
             (clock_ix (demo_world [Inr ''one.jpg''] [10, 10.2]) + 1)
           - clock (demo_world [Inr ''one.jpg''] [10, 10.2])
             (clock_ix (demo_world [Inr ''one.jpg''] [10, 10.2])) = 0.2"
    by (simp add: demo_world_def)
  have e: "trace (demo_world [Inr ''one.jpg''] [10, 10.2]) = []"
    by (simp add: demo_world_def)
  have rng: "(0::int) \<le> 0" "(0::int) < int (length (map Unset [0..3]))"
    by simp_all
  note p = pad_after_successful_capture [OF h rng, of demo_booth 3, unfolded t e]
  from p have "trace (the_world (capture_attempt demo_booth 0 3 (map Unset [0..3])
                 (demo_world [Inr ''one.jpg''] [10, 10.2])))
       = smile_actions 0 @ [Sleep 0.8]"
    by simp
  moreover from p have "capture_loop demo_booth 0 3 (map Unset [0..3]) (demo_world [Inr ''one.jpg''] [10, 10.2])
       = Return ((map Unset [0..3])[nat 0 := File ''one.jpg''])
           (the_world (capture_attempt demo_booth 0 3 (map Unset [0..3])
                 (demo_world [Inr ''one.jpg''] [10, 10.2])))"
    by simp
  ultimately show ?thesis using h rng by simp
qed

section \<open>Properties of the preview countdown\<close>

lemma preview_step_cases:
  "preview_step pb seconds tic toc w =
     (case previews w (preview_ix w) of
        Some e \<Rightarrow> Raise e (absorb pb ((display_clear None w)\<lparr>preview_ix := preview_ix w + 1\<rparr>))
      | None \<Rightarrow>
          Return (min (toc + 1) (clock w (clock_ix w) - tic))
            (w\<lparr>clock_ix := clock_ix w + 1, preview_ix := preview_ix w + 1,
               arrival_ix := arrival_ix w + 1,
               queue := queue w @ posted pb (arrivals w (arrival_ix w)),
               trace := trace w @ [DisplayClear None,
                  ShowPicture (preview_file pb) None None True,
                  ShowMessage (str (seconds - py_trunc toc)), Apply]\<rparr>))"
  by (simp add: preview_step_def prim_defs Let_def split: option.splits)

lemma preview_step_Return:
  assumes "preview_step pb seconds tic toc w = Return toc' w'"
  shows "toc' = min (toc + 1) (clock w (clock_ix w) - tic)
       \<and> clock w' = clock w \<and> clock_ix w' = clock_ix w + 1"
  using assms unfolding preview_step_cases by (auto split: option.splits)

lemma preview_loop_exit:
  "preview_loop k pb seconds tic toc w = Return toc' w' \<Longrightarrow>
   toc \<le> clock w (clock_ix w - 1) - tic \<Longrightarrow>
   real_of_int seconds \<le> toc' \<and> toc' \<le> clock w (clock_ix w' - 1) - tic
     \<and> clock w' = clock w \<and> clock_ix w \<le> clock_ix w'"
proof (induction k arbitrary: toc w)
  case 0
  then show ?case by simp
next
  case (Suc k)
  show ?case
  proof (cases "toc < real_of_int seconds")
    case False
    with Suc.prems show ?thesis by simp
  next
    case True
    with Suc.prems(1) obtain t1 w1 where
      st: "preview_step pb seconds tic toc w = Return t1 w1"
      and lp: "preview_loop k pb seconds tic t1 w1 = Return toc' w'"
      by (auto split: result.splits)
    from preview_step_Return [OF st] have
      t1: "t1 = min (toc + 1) (clock w (clock_ix w) - tic)"
      and c1: "clock w1 = clock w" "clock_ix w1 = clock_ix w + 1"
      by simp_all
    have "t1 \<le> clock w1 (clock_ix w1 - 1) - tic" using t1 c1 by simp
    from Suc.IH [OF lp this] show ?thesis using c1 by simp
  qed
qed

lemma returned_Some: "returned r = Some v \<Longrightarrow> r = Return v (the_world r)"
  by (cases r) simp_all

lemma show_counter_preview_exit:
  assumes "has_preview w" "show_counter pb n seconds w = Return () w'"
  shows "clock_ix w + 2 \<le> clock_ix w'
       \<and> real_of_int seconds \<le> clock w (clock_ix w' - 1) - clock w (clock_ix w)"
proof -
  from assms obtain toc' w2 where
    lp: "preview_loop n pb seconds (clock w (clock_ix w))
           (clock w (clock_ix w + 1) - clock w (clock_ix w)) w2 = Return toc' w'"
    and c2: "clock w2 = clock w" "clock_ix w2 = clock_ix w + 2"
    by (auto simp: show_counter_def prim_defs Let_def split: option.splits result.splits)
  have "clock w (clock_ix w + 1) - clock w (clock_ix w)
          \<le> clock w2 (clock_ix w2 - 1) - clock w (clock_ix w)"
    by (simp add: c2)
  from preview_loop_exit [OF lp this] show ?thesis
    using c2 by simp
qed

text \<open>
  Claim C7. In the preview loop of \<open>show_counter\<close>, an iteration whose preview succeeds
  replaces \<open>toc\<close> by the minimum of \<open>toc + 1\<close> and the elapsed time just read (the clock
  minus \<open>tic\<close>): it advances by at most 1 and does not exceed the elapsed time read in that
  iteration. When \<open>toc\<close> is at most the elapsed time at the entry of the loop, as it is in
  \<open>show_counter\<close>, the loop exits only with \<open>toc\<close> at least \<open>seconds\<close> and at most the
  elapsed time last read; so when \<open>show_counter\<close> returns, the last reading of the clock is
  at least \<open>seconds\<close> after \<open>tic\<close>.
\<close>

theorem preview_countdown_clamped:
  fixes pb :: photobooth and w wl ws :: world and seconds :: int and tic toc tl :: real
    and k n :: nat
  defines "step \<equiv> preview_step pb seconds tic toc w"
  defines "loop \<equiv> preview_loop k pb seconds tic tl wl"
  defines "countdown \<equiv> show_counter pb n seconds ws"
  shows "(previews w (preview_ix w) = None \<longrightarrow>
            returned step = Some (min (toc + 1) (clock w (clock_ix w) - tic)))
       \<and> (returned step = Some toc' \<longrightarrow>
            toc' = min (toc + 1) (clock w (clock_ix w) - tic)
            \<and> toc' \<le> toc + 1
            \<and> clock_ix (the_world step) = clock_ix w + 1
            \<and> toc' \<le> clock w (clock_ix (the_world step) - 1) - tic)
       \<and> (returned loop = Some toc_exit \<and> tl \<le> clock wl (clock_ix wl - 1) - tic \<longrightarrow>
            real_of_int seconds \<le> toc_exit
            \<and> toc_exit \<le> clock wl (clock_ix (the_world loop) - 1) - tic)
       \<and> (has_preview ws \<and> returned countdown = Some () \<longrightarrow>
            clock_ix ws + 2 \<le> clock_ix (the_world countdown)
            \<and> real_of_int seconds
                 \<le> clock ws (clock_ix (the_world countdown) - 1) - clock ws (clock_ix ws))"
proof -
  have a: "returned step = Some (min (toc + 1) (clock w (clock_ix w) - tic))"
    if "previews w (preview_ix w) = None"
    using that by (simp add: step_def preview_step_cases)
  have b: "toc' = min (toc + 1) (clock w (clock_ix w) - tic)
            \<and> toc' \<le> toc + 1
            \<and> clock_ix (the_world step) = clock_ix w + 1
            \<and> toc' \<le> clock w (clock_ix (the_world step) - 1) - tic"
    if "returned step = Some toc'"
  proof -
    from returned_Some [OF that] have "preview_step pb seconds tic toc w = Return toc' (the_world step)"
      by (simp add: step_def)
    from preview_step_Return [OF this] show ?thesis by simp
  qed
  have c: "real_of_int seconds \<le> toc_exit
            \<and> toc_exit \<le> clock wl (clock_ix (the_world loop) - 1) - tic"
    if "returned loop = Some toc_exit" "tl \<le> clock wl (clock_ix wl - 1) - tic"
  proof -
    from returned_Some [OF that(1)] have "preview_loop k pb seconds tic tl wl = Return toc_exit (the_world loop)"
      by (simp add: loop_def)
    from preview_loop_exit [OF this that(2)] show ?thesis by simp
  qed
  have d: "clock_ix ws + 2 \<le> clock_ix (the_world countdown)
            \<and> real_of_int seconds
                 \<le> clock ws (clock_ix (the_world countdown) - 1) - clock ws (clock_ix ws)"
    if "has_preview ws" "returned countdown = Some ()"
  proof -
    note e = returned_Some [OF that(2), unfolded countdown_def]
    from show_counter_preview_exit [OF that(1) e] show ?thesis unfolding countdown_def .
  qed
  show ?thesis using a b c d by blast
qed

text \<open>
  Claim C7 on a slow preview: with readings 0.1, 0.6, 2.5, 3.2 and 4 seconds after \<open>tic\<close> a
  countdown of 3 seconds ends at the reading 4, and \<open>toc\<close> goes from 0.6 to 1.6 while 2.5
  seconds have passed.
\<close>

theorem preview_countdown_clamped_witness:
  "has_preview (preview_world [0, 0.1, 0.6, 2.5, 3.2, 4])
   \<and> returned (show_counter demo_booth 10 3 (preview_world [0, 0.1, 0.6, 2.5, 3.2, 4])) = Some ()
   \<and> clock_ix (the_world (show_counter demo_booth 10 3 (preview_world [0, 0.1, 0.6, 2.5, 3.2, 4]))) = 6
   \<and> clock (preview_world [0, 0.1, 0.6, 2.5, 3.2, 4]) 5 = 4
   \<and> previews (preview_world [0, 0.1, 0.6, 2.5, 3.2, 4])
        (preview_ix (preview_world [0, 0.1, 0.6, 2.5, 3.2, 4])) = None
   \<and> returned (preview_step demo_booth 3 0 0.6 ((preview_world [0, 0.1, 0.6, 2.5, 3.2, 4])\<lparr>clock_ix := 3\<rparr>))
       = Some 1.6"
proof -
  let ?W = "preview_world [0, 0.1, 0.6, 2.5, 3.2, 4]"
  have h: "has_preview ?W" by (simp add: preview_world_def)
  have r: "returned (show_counter demo_booth 10 3 ?W) = Some ()"
    by (simp add: show_counter_def preview_step_cases preview_world_def demo_world_def demo_booth_def
      prim_defs Let_def eval_nat_numeral)
  have i: "clock_ix (the_world (show_counter demo_booth 10 3 ?W)) = 6"
    by (simp add: show_counter_def preview_step_cases preview_world_def demo_world_def demo_booth_def
      prim_defs Let_def eval_nat_numeral)
  have c5: "clock ?W 5 = 4" by (simp add: preview_world_def demo_world_def)
  have p: "previews (?W\<lparr>clock_ix := 3\<rparr>) (preview_ix (?W\<lparr>clock_ix := 3\<rparr>)) = None"
    "previews ?W (preview_ix ?W) = None"
    by (simp_all add: preview_world_def demo_world_def)
  have m: "min ((0.6::real) + 1) (clock (?W\<lparr>clock_ix := 3\<rparr>) (clock_ix (?W\<lparr>clock_ix := 3\<rparr>)) - 0) = 1.6"
    by (simp add: preview_world_def demo_world_def)
  note t = preview_countdown_clamped [where pb = demo_booth and seconds = 3 and tic = 0
      and toc = "0.6" and w = "?W\<lparr>clock_ix := 3\<rparr>" and ws = ?W and n = 10]
  from t p(1) have s: "returned (preview_step demo_booth 3 0 0.6 (?W\<lparr>clock_ix := 3\<rparr>))
      = Some (min (0.6 + 1) (clock (?W\<lparr>clock_ix := 3\<rparr>) (clock_ix (?W\<lparr>clock_ix := 3\<rparr>)) - 0))"
    by blast
  from t h r have "real_of_int 3 \<le> clock ?W (clock_ix (the_world (show_counter demo_booth 10 3 ?W)) - 1)
      - clock ?W (clock_ix ?W)"
    by blast
  show ?thesis using h r i c5 p(2) s [unfolded m] by simp
qed

section \<open>Properties of the session and of the main loop\<close>

lemma quiet_iff: "quiet w w' = (\<exists>as. trace w' = trace w @ as \<and> no_output as)"
proof
  assume "quiet w w'"
  then have "trace w' = trace w @ drop (length (trace w)) (trace w')"
    and "no_output (drop (length (trace w)) (trace w'))"
    unfolding quiet_def by (metis append_take_drop_id, simp)
  then show "\<exists>as. trace w' = trace w @ as \<and> no_output as" by blast
next
  assume "\<exists>as. trace w' = trace w @ as \<and> no_output as"
  then show "quiet w w'" by (auto simp: quiet_def)
qed

lemma quiet_refl: "quiet w w"
  by (simp add: quiet_def no_output_def)

lemma quiet_trace_eq: "trace w' = trace w \<Longrightarrow> quiet w w'"
  by (simp add: quiet_def no_output_def)

lemma quiet_trans: "quiet w w1 \<Longrightarrow> quiet w1 w2 \<Longrightarrow> quiet w w2"
  unfolding quiet_iff by (auto simp: no_output_def)

lemma quiet_append:
  "trace w' = trace w @ as \<Longrightarrow> no_output as \<Longrightarrow> quiet w w'"
  unfolding quiet_iff by blast

lemma quiet_pad_sleep: "quiet w (pad_sleep pb tic w)"
  by (rule quiet_append [where as = "pad_actions (clock w (clock_ix w) - tic)"])
     (simp_all add: pad_sleep_eq Let_def pad_actions_def no_output_def)

lemma quiet_capture_attempt:
  "capture_attempt pb x r fns w = Return v w' \<Longrightarrow> quiet w w'"
proof -
  assume a: "capture_attempt pb x r fns w = Return v w'"
  show ?thesis
  proof (cases "captures w (capture_ix w)")
    case (Inr f)
    show ?thesis
    proof (cases "store fns x (File f)")
      case (Inl e)
      with Inr a show ?thesis
        by (simp add: capture_attempt_def prim_defs Let_def)
    next
      case (Inr fns1)
      have "trace w' = trace w @ smile_actions x
              @ pad_actions (clock w (clock_ix w + 1) - clock w (clock_ix w))"
        using \<open>captures w (capture_ix w) = Inr f\<close> Inr a
        by (auto simp: capture_attempt_def prim_defs pad_sleep_eq Let_def smile_actions_def)
      then show ?thesis
        by (rule quiet_append) (simp add: no_output_def smile_actions_def pad_actions_def)
    qed
  next
    case (Inl e)
    show ?thesis
    proof (cases "\<exists>m. e = CameraException m True")
      case False
      with attempt_raise [OF Inl, of pb x r fns] a show ?thesis by auto
    next
      case True
      then obtain m where m: "captures w (capture_ix w) = Inl (CameraException m True)"
        using Inl by auto
      show ?thesis
      proof (cases "1 < r")
        case True
        from attempt_retry [OF m True, of pb x fns] a show ?thesis
          by (auto intro!: quiet_append
              simp: no_output_def smile_actions_def pad_actions_def retry_actions_def)
      next
        case False
        then have "r \<le> 1" by simp
        from attempt_give_up [OF m this, of pb x fns] a show ?thesis by auto
      qed
    qed
  qed
qed

lemma quiet_capture_loop:
  "capture_loop pb x r fns w = Return fns' w' \<Longrightarrow> quiet w w'"
proof (induction pb x r fns w rule: capture_loop.induct)
  case (1 pb x r fns w)
  show ?case
  proof (cases "0 < r")
    case False
    then have "capture_loop pb x r fns w = Return fns w" by (subst capture_loop.simps) simp
    with "1.prems" show ?thesis by (simp add: quiet_refl)
  next
    case True
    show ?thesis
    proof (cases "capture_attempt pb x r fns w")
      case (Return v w1)
      obtain r1 fns1 where v: "v = (r1, fns1)" by (cases v)
      have "capture_loop pb x r fns w = capture_loop pb x r1 fns1 w1"
        using capture_loop_step [OF True] Return v by simp
      then have "capture_loop pb x r1 fns1 w1 = Return fns' w'" using "1.prems" by simp
      from "1.IH" [OF True Return v [symmetric] this] have "quiet w1 w'" .
      moreover have "quiet w w1" using quiet_capture_attempt Return by blast
      ultimately show ?thesis by (blast intro: quiet_trans)
    next
      case (Raise e w1)
      then have "capture_loop pb x r fns w = Raise e w1" using capture_loop_raise [OF True] by simp
      with "1.prems" show ?thesis by simp
    next
      case (Unfinished w1)
      then have "capture_loop pb x r fns w = Unfinished w1"
        using True by (subst capture_loop.simps) simp
      with "1.prems" show ?thesis by simp
    qed
  qed
qed

lemma quiet_preview_step: "preview_step pb seconds tic toc w = Return toc' w' \<Longrightarrow> quiet w w'"
  unfolding preview_step_cases
  by (auto split: option.splits intro!: quiet_append simp: no_output_def)

lemma quiet_preview_loop:
  "preview_loop k pb seconds tic toc w = Return toc' w' \<Longrightarrow> quiet w w'"
proof (induction k arbitrary: toc w)
  case 0
  then show ?case by simp
next
  case (Suc k)
  show ?case
  proof (cases "toc < real_of_int seconds")
    case False
    with Suc.prems show ?thesis by (simp add: quiet_refl)
  next
    case True
    with Suc.prems obtain t1 w1 where
      st: "preview_step pb seconds tic toc w = Return t1 w1"
      and lp: "preview_loop k pb seconds tic t1 w1 = Return toc' w'"
      by (auto split: result.splits)
    from quiet_preview_step [OF st] Suc.IH [OF lp] show ?thesis by (rule quiet_trans)
  qed
qed

lemma quiet_countdown_tick: "quiet w (countdown_tick pb seconds w i)"
  by (rule quiet_append [where as = "[DisplayClear None, ShowMessage (str (seconds - i)), Apply, Sleep 1]"])
     (simp_all add: countdown_tick_def prim_defs Let_def no_output_def)

lemma quiet_countdown: "quiet w (foldl (countdown_tick pb seconds) w is)"
proof (induction "is" arbitrary: w)
  case Nil
  then show ?case by (simp add: quiet_refl)
next
  case (Cons i "is")
  have "quiet w (countdown_tick pb seconds w i)" by (rule quiet_countdown_tick)
  moreover have "quiet (countdown_tick pb seconds w i)
      (foldl (countdown_tick pb seconds) (countdown_tick pb seconds w i) is)"
    by (rule Cons.IH)
  ultimately show ?case by (simp add: quiet_trans)
qed

lemma quiet_show_counter: "show_counter pb n seconds w = Return u w' \<Longrightarrow> quiet w w'"
proof (cases "has_preview w")
  case False
  assume "show_counter pb n seconds w = Return u w'"
  with False have "w' = foldl (countdown_tick pb seconds) w [0..seconds - 1]"
    by (simp add: show_counter_def)
  then show ?thesis by (simp add: quiet_countdown)
next
  case True
  assume "show_counter pb n seconds w = Return u w'"
  with True obtain toc' w2 tic toc where
    lp: "preview_loop n pb seconds tic toc w2 = Return toc' w'"
    and t2: "trace w2 = trace w @ [DisplayClear None, ShowPicture (preview_file pb) None None True, Apply]"
    by (auto simp: show_counter_def prim_defs Let_def split: option.splits result.splits)
  have "quiet w w2" using t2 by (rule quiet_append) (simp add: no_output_def)
  with quiet_preview_loop [OF lp] show ?thesis by (blast intro: quiet_trans)
qed

lemma quiet_take_shots: "take_shots pb n xs fns w = Return fns' w' \<Longrightarrow> quiet w w'"
proof (induction xs arbitrary: fns w)
  case Nil
  then show ?case by (simp add: quiet_refl)
next
  case (Cons x xs)
  from Cons.prems obtain u w1 fns1 w2 where
    a: "show_counter pb n (pose_time pb) w = Return u w1"
    and b: "capture_loop pb x 3 fns w1 = Return fns1 w2"
    and c: "take_shots pb n xs fns1 w2 = Return fns' w'"
    by (auto split: result.splits)
  from quiet_show_counter [OF a] quiet_capture_loop [OF b] Cons.IH [OF c]
  show ?case by (blast intro: quiet_trans)
qed

lemma quiet_assemble_pictures:
  "assemble_pictures pb fns w = Return outfile w' \<Longrightarrow> quiet w w'"
  unfolding assemble_pictures_def Let_def
  by (auto split: sum.splits prod.splits simp: strftime_hms_def emit_def
      intro!: quiet_append simp: no_output_def)

lemma check_for_event_None:
  "check_for_event pb w = (None, w') \<Longrightarrow> queue w' = [] \<and> trace w' = trace w"
  by (auto simp: check_for_event_def Let_def absorb_eq split: list.splits)

lemma check_for_event_Some:
  "check_for_event pb w = (Some e, w') \<Longrightarrow> trace w' = trace w"
  by (auto simp: check_for_event_def Let_def absorb_eq split: list.splits)

lemma clear_event_queue_Return:
  "clear_event_queue pb k w = Return u w' \<Longrightarrow> queue w' = [] \<and> trace w' = trace w"
proof (induction k arbitrary: w)
  case 0
  then show ?case by simp
next
  case (Suc k)
  show ?case
  proof (cases "check_for_event pb w")
    case (Pair r w1)
    show ?thesis
    proof (cases r)
      case None
      with Pair Suc.prems have "w' = w1" by simp
      with check_for_event_None Pair None show ?thesis by blast
    next
      case (Some e)
      with Pair Suc.prems have "clear_event_queue pb k w1 = Return u w'" by simp
      from Suc.IH [OF this] check_for_event_Some Pair Some show ?thesis by fastforce
    qed
  qed
qed

text \<open>
  Claim C9. When \<open>take_picture\<close> returns, its effects begin with switching the lamp
  output off, followed by the pose message and its 2 seconds, and end with switching the
  lamp output on; nothing in between touches a GPIO output. After that the event queue
  was polled until it reported no event: the queue is left empty, so the events that
  arrived during the session are discarded, and when no new input arrives the next
  \<open>check_and_handle_events\<close> returns at once, starting no session.
\<close>

theorem session_lamp_and_drain:
  fixes pb :: photobooth and w :: world and n k :: nat
  defines "r \<equiv> take_picture pb n w"
  shows "returned r = Some () \<longrightarrow>
       (\<exists>mid. trace (the_world r) =
                 trace w @ [SetOutput (lamp_channel pb) 0, DisplayClear None,
                            ShowMessage ''POSE!\<newline>\<newline>Four pictures...'', Apply, Sleep 2]
                   @ mid @ [SetOutput (lamp_channel pb) 1]
              \<and> no_output mid)
       \<and> queue (the_world r) = []
       \<and> (posted pb (arrivals (the_world r) (arrival_ix (the_world r))) = [] \<longrightarrow>
            check_and_handle_events pb n (Suc k) (the_world r)
              = Return () (absorb pb (the_world r)))"
proof
  assume "returned r = Some ()"
  then have ret: "take_picture pb n w = Return () (the_world r)"
    unfolding r_def by (rule returned_Some)
  define w' where "w' = the_world r"
  define w1 where "w1 = sleep pb 2 (display_apply (show_message ''POSE!\<newline>\<newline>Four pictures...''
        (display_clear None (set_output (lamp_channel pb) 0 w))))"
  from ret obtain fns w2 outfile w4 where
    ts: "take_shots pb n [0..3] (map Unset [0..3]) w1 = Return fns w2"
    and asm: "assemble_pictures pb fns
                (display_apply (show_message ''Please wait!'' (display_clear None w2)))
              = Return outfile w4"
    and ce: "clear_event_queue pb n
               (set_output (lamp_channel pb) 1 (sleep pb (display_time pb) (display_apply
                  (show_picture outfile (Some (display_size pb)) (Some (0, 0)) False
                     (display_clear None w4))))) = Return () w'"
    unfolding take_picture_def Let_def w1_def w'_def
    by (auto split: result.splits)
  define w3 where "w3 = display_apply (show_message ''Please wait!'' (display_clear None w2))"
  define w5 where "w5 = set_output (lamp_channel pb) 1 (sleep pb (display_time pb) (display_apply
                  (show_picture outfile (Some (display_size pb)) (Some (0, 0)) False
                     (display_clear None w4))))"
  have t1: "trace w1 = trace w @ [SetOutput (lamp_channel pb) 0, DisplayClear None,
                            ShowMessage ''POSE!\<newline>\<newline>Four pictures...'', Apply, Sleep 2]"
    by (simp add: w1_def prim_defs)
  from quiet_take_shots [OF ts] obtain as2 where
    t2: "trace w2 = trace w1 @ as2" "no_output as2"
    unfolding quiet_iff by blast
  have t3: "trace w3 = trace w2 @ [DisplayClear None, ShowMessage ''Please wait!'', Apply]"
    by (simp add: w3_def prim_defs)
  from quiet_assemble_pictures [OF asm [folded w3_def]] obtain as4 where
    t4: "trace w4 = trace w3 @ as4" "no_output as4"
    unfolding quiet_iff by blast
  have t5: "trace w5 = trace w4 @ [DisplayClear None,
        ShowPicture outfile (Some (display_size pb)) (Some (0, 0)) False, Apply,
        Sleep (display_time pb)] @ [SetOutput (lamp_channel pb) 1]"
    by (simp add: w5_def prim_defs)
  from clear_event_queue_Return [OF ce [folded w5_def]] have
    q: "queue w' = []" and t6: "trace w' = trace w5"
    by simp_all
  define mid where "mid = as2 @ [DisplayClear None, ShowMessage ''Please wait!'', Apply] @ as4
     @ [DisplayClear None, ShowPicture outfile (Some (display_size pb)) (Some (0, 0)) False, Apply,
        Sleep (display_time pb)]"
  have nm: "no_output mid" using t2(2) t4(2) by (simp add: mid_def no_output_def)
  have tr: "trace w' = trace w @ [SetOutput (lamp_channel pb) 0, DisplayClear None,
                            ShowMessage ''POSE!\<newline>\<newline>Four pictures...'', Apply, Sleep 2]
                   @ mid @ [SetOutput (lamp_channel pb) 1]"
    unfolding t6 t5 t4(1) t3 t2(1) t1 mid_def by simp
  have nx: "check_and_handle_events pb n (Suc k) w' = Return () (absorb pb w')"
    if "posted pb (arrivals w' (arrival_ix w')) = []"
    using that q by (simp add: check_for_event_def Let_def absorb_eq)
  show "(\<exists>mid. trace (the_world r) =
                 trace w @ [SetOutput (lamp_channel pb) 0, DisplayClear None,
                            ShowMessage ''POSE!\<newline>\<newline>Four pictures...'', Apply, Sleep 2]
                   @ mid @ [SetOutput (lamp_channel pb) 1]
              \<and> no_output mid)
       \<and> queue (the_world r) = []
       \<and> (posted pb (arrivals (the_world r) (arrival_ix (the_world r))) = [] \<longrightarrow>
            check_and_handle_events pb n (Suc k) (the_world r)
              = Return () (absorb pb (the_world r)))"
    using tr nm q nx unfolding w'_def by blast
qed

lemma demo_take_picture_returns:
  "returned (take_picture demo_booth 5 (demo_world [] [])) = Some ()"
  by (simp add: take_picture_def show_counter_def countdown_tick_def capture_loop.simps
      capture_attempt_def pad_sleep_eq assemble_pictures_def open_thumbnail_def index_def
      demo_world_def demo_booth_def prim_defs Let_def eval_nat_numeral check_for_event_def
      upto.simps posted_def store_def)

text \<open>
  Claim C9 on a complete session during which the button is pressed and a key is hit.
\<close>

theorem session_lamp_and_drain_witness:
  "returned (take_picture demo_booth 5 (demo_world [] [])) = Some ()
   \<and> queue (the_world (take_picture demo_booth 5 (demo_world [] []))) = []
   \<and> hd (trace (the_world (take_picture demo_booth 5 (demo_world [] [])))) = SetOutput 23 0
   \<and> last (trace (the_world (take_picture demo_booth 5 (demo_world [] [])))) = SetOutput 23 1"
proof -
  have l: "lamp_channel demo_booth = 23" by (simp add: demo_booth_def)
  have e: "trace (demo_world [] []) = []" by (simp add: demo_world_def)
  from session_lamp_and_drain [of demo_booth 5 "demo_world [] []"] demo_take_picture_returns
  obtain mid where
    t: "trace (the_world (take_picture demo_booth 5 (demo_world [] []))) =
          trace (demo_world [] []) @ [SetOutput (lamp_channel demo_booth) 0, DisplayClear None,
                            ShowMessage ''POSE!\<newline>\<newline>Four pictures...'', Apply, Sleep 2]
                   @ mid @ [SetOutput (lamp_channel demo_booth) 1]"
    and q: "queue (the_world (take_picture demo_booth 5 (demo_world [] []))) = []"
    by blast
  show ?thesis using demo_take_picture_returns q by (simp add: t l e)
qed

lemma run_ends_by_shutdown_only:
  "run pb n k w = Raise e w' \<Longrightarrow> e = KeyboardInterrupt \<or> (\<exists>code. e = SystemExit code)"
proof (induction k arbitrary: w)
  case 0
  then show ?case by simp
next
  case (Suc k)
  show ?case
  proof (cases "run_idle pb n w")
    case (Return u w1)
    with Suc.prems have "run pb n k w1 = Raise e w'" by simp
    then show ?thesis by (rule Suc.IH)
  next
    case (Unfinished w1)
    with Suc.prems show ?thesis by simp
  next
    case (Raise x w1)
    show ?thesis
    proof (cases x)
      case (CameraException m rec)
      with Raise Suc.prems have "run pb n k (handle_exception pb m w1) = Raise e w'" by simp
      then show ?thesis by (rule Suc.IH)
    next
      case KeyboardInterrupt
      with Raise Suc.prems show ?thesis by simp
    next
      case (SystemExit code)
      with Raise Suc.prems show ?thesis by auto
    next
      case (PyException rp)
      with Raise Suc.prems have
        "run pb n k (handle_exception pb ''SERIOUS ERROR!'' (print (''SERIOUS ERROR: '' @ rp) w1))
           = Raise e w'" by simp
      then show ?thesis by (rule Suc.IH)
    qed
  qed
qed

lemma run_never_returns: "run pb n k w \<noteq> Return u w'"
proof (induction k arbitrary: w)
  case 0
  then show ?case by simp
next
  case (Suc k)
  show ?case
  proof (cases "run_idle pb n w")
    case (Return u w1)
    then show ?thesis using Suc.IH by simp
  next
    case (Unfinished w1)
    then show ?thesis by simp
  next
    case (Raise x w1)
    then show ?thesis using Suc.IH by (cases x) simp_all
  qed
qed

lemma trace_handle_exception:
  "trace (handle_exception pb msg w) =
     trace w @ [DisplayClear None, Print (''Error: '' @ msg),
                ShowMessage (''ERROR:\<newline>\<newline>'' @ msg), Apply, Sleep 3]"
  by (simp add: handle_exception_def prim_defs Let_def)

lemma raised_Some: "raised r = Some e \<Longrightarrow> r = Raise e (the_world r)"
  by (cases r) simp_all

lemma run_step:
  "run_idle pb n w = Raise (CameraException m rec) w1 \<Longrightarrow>
     run pb n (Suc k) w = run pb n k (handle_exception pb m w1)"
  "run_idle pb n w = Raise (PyException rp) w1 \<Longrightarrow>
     run pb n (Suc k) w =
       run pb n k (handle_exception pb ''SERIOUS ERROR!'' (print (''SERIOUS ERROR: '' @ rp) w1))"
  "run_idle pb n w = Raise KeyboardInterrupt w1 \<Longrightarrow>
     run pb n (Suc k) w = Raise KeyboardInterrupt w1"
  "run_idle pb n w = Raise (SystemExit code) w1 \<Longrightarrow>
     run pb n (Suc k) w = Raise (SystemExit code) w1"
  by simp_all

text \<open>
  Claim C2. Whatever happens in the idle loop and in the sessions it starts, \<open>run\<close> never
  returns and raises nothing but \<open>KeyboardInterrupt\<close> or \<open>SystemExit\<close>. When the body of
  the \<open>try\<close> raises a \<open>CameraException\<close>, the error screen with its message is shown,
  3 seconds are slept and the loop goes on with its next iteration; any other exception
  of class \<open>Exception\<close> is printed and shown as "SERIOUS ERROR!" in the same way.
  \<open>KeyboardInterrupt\<close> and \<open>SystemExit\<close> are raised again, in the world they occurred in.
\<close>

theorem run_contains_failures:
  fixes pb :: photobooth and w w0 :: world and n k k0 :: nat
  defines "idle \<equiv> run_idle pb n w"
  shows "(raised (run pb n k0 w0) = Some e \<longrightarrow>
            e = KeyboardInterrupt \<or> (\<exists>code. e = SystemExit code))
       \<and> returned (run pb n k0 w0) = None
       \<and> (raised idle = Some (CameraException message recoverable) \<longrightarrow>
            run pb n (Suc k) w = run pb n k (handle_exception pb message (the_world idle))
            \<and> trace (handle_exception pb message (the_world idle)) =
                trace (the_world idle) @
                  [DisplayClear None, Print (''Error: '' @ message),
                   ShowMessage (''ERROR:\<newline>\<newline>'' @ message), Apply, Sleep 3])
       \<and> (raised idle = Some (PyException rp) \<longrightarrow>
            run pb n (Suc k) w =
              run pb n k (handle_exception pb ''SERIOUS ERROR!''
                            (print (''SERIOUS ERROR: '' @ rp) (the_world idle)))
            \<and> trace (handle_exception pb ''SERIOUS ERROR!''
                            (print (''SERIOUS ERROR: '' @ rp) (the_world idle))) =
                trace (the_world idle) @
                  [Print (''SERIOUS ERROR: '' @ rp),
                   DisplayClear None, Print ''Error: SERIOUS ERROR!'',
                   ShowMessage ''ERROR:\<newline>\<newline>SERIOUS ERROR!'', Apply, Sleep 3])
       \<and> (raised idle = Some KeyboardInterrupt \<longrightarrow>
            run pb n (Suc k) w = Raise KeyboardInterrupt (the_world idle))
       \<and> (raised idle = Some (SystemExit code) \<longrightarrow>
            run pb n (Suc k) w = Raise (SystemExit code) (the_world idle))"
proof -
  have a: "e = KeyboardInterrupt \<or> (\<exists>code. e = SystemExit code)"
    if "raised (run pb n k0 w0) = Some e"
    using raised_Some [OF that] by (rule run_ends_by_shutdown_only)
  have b: "returned (run pb n k0 w0) = None"
    by (cases "run pb n k0 w0") (simp_all add: run_never_returns)
  have c: "run pb n (Suc k) w = run pb n k (handle_exception pb message (the_world idle))"
    if "raised idle = Some (CameraException message recoverable)"
    using run_step(1) [OF raised_Some [OF that, unfolded idle_def]] by (simp add: idle_def)
  have d: "run pb n (Suc k) w =
              run pb n k (handle_exception pb ''SERIOUS ERROR!''
                            (print (''SERIOUS ERROR: '' @ rp) (the_world idle)))"
    if "raised idle = Some (PyException rp)"
    using run_step(2) [OF raised_Some [OF that, unfolded idle_def]] by (simp add: idle_def)
  have f: "run pb n (Suc k) w = Raise KeyboardInterrupt (the_world idle)"
    if "raised idle = Some KeyboardInterrupt"
    using run_step(3) [OF raised_Some [OF that, unfolded idle_def]] by (simp add: idle_def)
  have g: "run pb n (Suc k) w = Raise (SystemExit code) (the_world idle)"
    if "raised idle = Some (SystemExit code)"
    using run_step(4) [OF raised_Some [OF that, unfolded idle_def]] by (simp add: idle_def)
  have t: "trace (handle_exception pb ''SERIOUS ERROR!''
                            (print (''SERIOUS ERROR: '' @ rp) (the_world idle))) =
                trace (the_world idle) @
                  [Print (''SERIOUS ERROR: '' @ rp),
                   DisplayClear None, Print ''Error: SERIOUS ERROR!'',
                   ShowMessage ''ERROR:\<newline>\<newline>SERIOUS ERROR!'', Apply, Sleep 3]"
    by (simp add: trace_handle_exception print_def emit_def)
  show ?thesis
    using a b c d f g t trace_handle_exception [of pb message "the_world idle"] by blast
qed

lemmas eval_defs = run_idle_def check_for_event_def handle_event_def handle_gpio_event_def
  handle_keypress_def take_picture_def show_counter_def countdown_tick_def capture_loop.simps
  capture_attempt_def teardown_def remove_tempfiles_def failing_world_def demo_world_def
  demo_booth_def prim_defs Let_def eval_nat_numeral upto.simps posted_def handle_exception_def
  store_def

lemma idle_camera_error:
  "raised (run_idle demo_booth 5 (failing_world (CameraException ''gone'' False) [GpioEvent 18, Quit]))
     = Some (CameraException ''gone'' False)"
  by (simp add: eval_defs)

lemma idle_unclassified:
  "raised (run_idle demo_booth 5 (failing_world (PyException ''IOError()'') [KeyPress 99]))
     = Some (PyException ''IOError()'')"
  by (simp add: eval_defs)

lemma idle_interrupt:
  "raised (run_idle demo_booth 5 (failing_world KeyboardInterrupt [GpioEvent 18]))
     = Some KeyboardInterrupt"
  by (simp add: eval_defs)

lemma idle_quit:
  "raised (run_idle demo_booth 5 (failing_world KeyboardInterrupt [Quit]))
     = Some (SystemExit 0)"
  by (simp add: eval_defs)

lemma run_camera_error_then_quit:
  "raised (run demo_booth 5 2 (failing_world (CameraException ''gone'' False) [GpioEvent 18, Quit]))
     = Some (SystemExit 0)"
  by (simp add: eval_defs)

text \<open>
  Claim C2 on four runs: a camera error in a session and then the quit event; an
  unclassified exception in a session; an interrupt in a session; the quit event.
\<close>

theorem run_contains_failures_witness:
  "raised (run_idle demo_booth 5 (failing_world (CameraException ''gone'' False) [GpioEvent 18, Quit]))
     = Some (CameraException ''gone'' False)
   \<and> run demo_booth 5 (Suc 1) (failing_world (CameraException ''gone'' False) [GpioEvent 18, Quit])
     = run demo_booth 5 1 (handle_exception demo_booth ''gone''
         (the_world (run_idle demo_booth 5
            (failing_world (CameraException ''gone'' False) [GpioEvent 18, Quit]))))
   \<and> raised (run demo_booth 5 2 (failing_world (CameraException ''gone'' False) [GpioEvent 18, Quit]))
     = Some (SystemExit 0)
   \<and> raised (run_idle demo_booth 5 (failing_world (PyException ''IOError()'') [KeyPress 99]))
     = Some (PyException ''IOError()'')
   \<and> run demo_booth 5 (Suc 1) (failing_world (PyException ''IOError()'') [KeyPress 99])
     = run demo_booth 5 1 (handle_exception demo_booth ''SERIOUS ERROR!''
         (print (''SERIOUS ERROR: '' @ ''IOError()'')
            (the_world (run_idle demo_booth 5
               (failing_world (PyException ''IOError()'') [KeyPress 99])))))
   \<and> raised (run_idle demo_booth 5 (failing_world KeyboardInterrupt [GpioEvent 18]))
     = Some KeyboardInterrupt
   \<and> run demo_booth 5 (Suc 1) (failing_world KeyboardInterrupt [GpioEvent 18])
     = Raise KeyboardInterrupt
         (the_world (run_idle demo_booth 5 (failing_world KeyboardInterrupt [GpioEvent 18])))
   \<and> raised (run_idle demo_booth 5 (failing_world KeyboardInterrupt [Quit])) = Some (SystemExit 0)
   \<and> run demo_booth 5 (Suc 1) (failing_world KeyboardInterrupt [Quit])
     = Raise (SystemExit 0)
         (the_world (run_idle demo_booth 5 (failing_world KeyboardInterrupt [Quit])))"
proof -
  note a = run_contains_failures [where pb = demo_booth and n = 5 and k = 1
      and w = "failing_world (CameraException ''gone'' False) [GpioEvent 18, Quit]"
      and message = "''gone''" and recoverable = False]
  note b = run_contains_failures [where pb = demo_booth and n = 5 and k = 1
      and w = "failing_world (PyException ''IOError()'') [KeyPress 99]"
      and rp = "''IOError()''"]
  note c = run_contains_failures [where pb = demo_booth and n = 5 and k = 1
      and w = "failing_world KeyboardInterrupt [GpioEvent 18]"]
  note d = run_contains_failures [where pb = demo_booth and n = 5 and k = 1
      and w = "failing_world KeyboardInterrupt [Quit]" and code = 0]
  from a idle_camera_error have a': "run demo_booth 5 (Suc 1) (failing_world (CameraException ''gone'' False) [GpioEvent 18, Quit])
     = run demo_booth 5 1 (handle_exception demo_booth ''gone''
         (the_world (run_idle demo_booth 5
            (failing_world (CameraException ''gone'' False) [GpioEvent 18, Quit]))))"
    by blast
  from b idle_unclassified have b': "run demo_booth 5 (Suc 1) (failing_world (PyException ''IOError()'') [KeyPress 99])
     = run demo_booth 5 1 (handle_exception demo_booth ''SERIOUS ERROR!''
         (print (''SERIOUS ERROR: '' @ ''IOError()'')
            (the_world (run_idle demo_booth 5
               (failing_world (PyException ''IOError()'') [KeyPress 99])))))"
    by blast
  from c idle_interrupt have c': "run demo_booth 5 (Suc 1) (failing_world KeyboardInterrupt [GpioEvent 18])
     = Raise KeyboardInterrupt
         (the_world (run_idle demo_booth 5 (failing_world KeyboardInterrupt [GpioEvent 18])))"
    by blast
  from d idle_quit have d': "run demo_booth 5 (Suc 1) (failing_world KeyboardInterrupt [Quit])
     = Raise (SystemExit 0)
         (the_world (run_idle demo_booth 5 (failing_world KeyboardInterrupt [Quit])))"
    by blast
  show ?thesis
    by (intro conjI idle_camera_error a' run_camera_error_then_quit idle_unclassified b'
        idle_interrupt c' idle_quit d')
qed

end
